theory Spec2Isabelle
  imports
    Main
    "HOL-Library.Word"
    "HOL-Library.Sublist"
    "HOL-Library.Char_ord"
    "HOL-Library.List_Lexorder"
begin

section \<open>The client-side maintenance coordinator of binprot/client\_db.go\<close>

text \<open>
  The file \<^verbatim>\<open>binprot/client_db.go\<close> drives a number of collaborators that live in
  other files: the shard store (package \<^verbatim>\<open>db\<close>), the wire client (\<^verbatim>\<open>sendCmd\<close>,
  \<^verbatim>\<open>reloadServer\<close>, \<^verbatim>\<open>Ping\<close>), the document scan (\<^verbatim>\<open>approxDocCount\<close>,
  \<^verbatim>\<open>getDocPage\<close>, \<^verbatim>\<open>insertRecovery\<close>), the clock and the log.  Every call that
  the coordinator makes on a collaborator is a value of type \<open>call\<close>; the state of the
  world is the list of calls made so far, oldest first, and what a collaborator answers
  is a function of that list (and of the call's arguments).  This is the most general
  deterministic collaborator: nothing is assumed about what a shard store or a server
  does.  A function of the source becomes a function from the history before it runs
  to its result and the history after.
\<close>

subsection \<open>Data\<close>

type_synonym int32 = "32 word"
type_synonym uint64 = "64 word"
type_synonym byte = "8 word"

text \<open>A Go \<^verbatim>\<open>error\<close> value, or a run-time panic, which unwinds the same way here
  (the file has no \<^verbatim>\<open>recover\<close> and no \<^verbatim>\<open>defer\<close>).\<close>

datatype err = Err string | Panic string

datatype opcode = C_HT_PUT

text \<open>
  The calls on collaborators.  A shard store handle \<^verbatim>\<open>clientDB\<close> obtained from
  \<^verbatim>\<open>db.OpenDB(path.Join(client.workspace, strconv.Itoa(i)))\<close> is named by its shard
  index \<open>i\<close>; \<^verbatim>\<open>clientDB.Use(name).BPIndex(p)\<close> is \<open>Col_BPIndex i name p\<close>.
  \<open>'v\<close> is the type of Go's \<^verbatim>\<open>interface{}\<close> document values.
\<close>

datatype 'v call =
    DB_Open nat
  | DB_Create nat string
  | DB_Rename nat string string
  | DB_Truncate nat string
  | DB_Drop nat string
  | DB_Close nat
  | Col_BPIndex nat string "string list"
  | Col_Unindex nat string "string list"
  | C_reloadServer
  | C_Ping
  | C_approxDocCount string
  | C_getDocPage string uint64 uint64 bool
  | C_insertRecovery int32 uint64 'v
  | C_sendCmd int bool opcode "byte list list"
  | Log_Noticef string int err

type_synonym 'v hist = "'v call list"

text \<open>
  The schema cache \<^verbatim>\<open>client.schema\<close>.  A Go map is an association list: the order
  of the list is the order in which a \<^verbatim>\<open>range\<close> over the map visits it (Go leaves
  it unspecified), a lookup is \<open>map_of\<close>.  The keys of a Go map are distinct
  (\<open>schema_wf\<close>).
\<close>

record schema =
  colNameLookup :: "(string \<times> int32) list"
  indexPaths :: "(int32 \<times> (int32 \<times> string list) list) list"
  indexPathsJoint :: "(int32 \<times> (string \<times> int32) list) list"

definition schema_wf :: "schema \<Rightarrow> bool" where
  "schema_wf s = (distinct (map fst (colNameLookup s)) \<and>
     list_all (\<lambda>(colID, paths). distinct (map fst paths)) (indexPathsJoint s))"

text \<open>
  The collaborators.  \<open>e_call\<close> answers the calls that return only an error (\<open>None\<close>
  is Go's \<^verbatim>\<open>nil\<close>); \<open>e_Use\<close> says whether \<^verbatim>\<open>clientDB.Use(name)\<close> is not
  \<^verbatim>\<open>nil\<close>; \<open>e_schema\<close> is the content of \<^verbatim>\<open>client.schema\<close>; the last fields
  are the pure helpers of other packages (\<^verbatim>\<open>db.GetIn\<close>, \<^verbatim>\<open>fmt.Sprint\<close>,
  \<^verbatim>\<open>db.StrHash\<close>, \<^verbatim>\<open>Bint32\<close>, \<^verbatim>\<open>Buint64\<close>, \<^verbatim>\<open>Schema.GetHTIDByPath\<close>,
  \<^verbatim>\<open>db.INDEX_PATH_SEP\<close>, and the decoding of a string into its UTF-8 sequences,
  \<open>e_explode\<close>, which \<^verbatim>\<open>strings.Split\<close> uses for an empty separator).  In the result
  of \<open>e_GetIn\<close>, \<open>None\<close> is a \<^verbatim>\<open>nil\<close> value.
\<close>

record 'v env =
  e_call :: "'v hist \<Rightarrow> 'v call \<Rightarrow> err option"
  e_Use :: "'v hist \<Rightarrow> nat \<Rightarrow> string \<Rightarrow> bool"
  e_schema :: "'v hist \<Rightarrow> schema"
  e_approxDocCount :: "'v hist \<Rightarrow> string \<Rightarrow> err + uint64"
  e_getDocPage :: "'v hist \<Rightarrow> string \<Rightarrow> uint64 \<Rightarrow> uint64 \<Rightarrow> bool \<Rightarrow> err + (uint64 \<times> 'v) list"
  e_UnixNano :: "'v hist \<Rightarrow> int"
  e_GetIn :: "'v \<Rightarrow> string list \<Rightarrow> 'v option list"
  e_Sprint :: "'v \<Rightarrow> string"
  e_StrHash :: "string \<Rightarrow> uint64"
  e_Bint32 :: "int32 \<Rightarrow> byte list"
  e_Buint64 :: "uint64 \<Rightarrow> byte list"
  e_GetHTIDByPath :: "schema \<Rightarrow> string \<Rightarrow> string list \<Rightarrow> int32"
  e_explode :: "string \<Rightarrow> string list"
  e_INDEX_PATH_SEP :: string

text \<open>The fields of \<^verbatim>\<open>BinProtClient\<close> that the file reads.\<close>

record client =
  nProcs :: int
  cid :: int

subsection \<open>Helpers\<close>

text \<open>One call on a collaborator: its answer, and the history with the call added.\<close>

definition invoke :: "'v env \<Rightarrow> 'v call \<Rightarrow> 'v hist \<Rightarrow> err option \<times> 'v hist" where
  "invoke env c h = (e_call env h c, h @ [c])"

text \<open>\<^verbatim>\<open>%d\<close> of \<^verbatim>\<open>fmt.Sprintf\<close>: an integer in decimal (\<open>digit\<close> is only
  applied below ten).\<close>

definition digit :: "nat \<Rightarrow> char" where
  "digit d = ''0123456789'' ! d"

function natDec :: "nat \<Rightarrow> string" where
  "natDec n = (if n < 10 then [digit n] else natDec (n div 10) @ [digit (n mod 10)])"
  by pat_completeness auto
termination
  by (relation "measure id") auto

declare natDec.simps [simp del]

definition intDec :: "int \<Rightarrow> string" where
  "intDec i = (if i < 0 then CHR ''-'' # natDec (nat (- i)) else natDec (nat i))"

text \<open>The shard that a shard store call is made on.\<close>

fun shard_of :: "'v call \<Rightarrow> nat option" where
  "shard_of (DB_Open i) = Some i"
| "shard_of (DB_Create i n) = Some i"
| "shard_of (DB_Rename i n m) = Some i"
| "shard_of (DB_Truncate i n) = Some i"
| "shard_of (DB_Drop i n) = Some i"
| "shard_of (DB_Close i) = Some i"
| "shard_of (Col_BPIndex i n p) = Some i"
| "shard_of (Col_Unindex i n p) = Some i"
| "shard_of c = None"

text \<open>Every call of \<open>tr\<close>, made in this order from the history \<open>h\<close>, returned no error.\<close>

fun all_ok :: "'v env \<Rightarrow> 'v hist \<Rightarrow> 'v call list \<Rightarrow> bool" where
  "all_ok env h [] = True"
| "all_ok env h (c # cs) = (e_call env h c = None \<and> all_ok env (h @ [c]) cs)"

subsection \<open>forAllDBsDo (lines 17-29)\<close>

text \<open>
  \<^verbatim>\<open>for i := 0; i < client.nProcs; i++\<close> is a recursion over the indices
  \<open>[0..<nat nProcs]\<close> (no index when \<open>nProcs \<le> 0\<close>).  The closure \<^verbatim>\<open>fun\<close> is given
  the handle, here the shard index.
\<close>

fun forAllDBsDo_loop ::
  "'v env \<Rightarrow> (nat \<Rightarrow> 'v hist \<Rightarrow> err option \<times> 'v hist) \<Rightarrow> nat list \<Rightarrow> 'v hist \<Rightarrow> err option \<times> 'v hist" where
  "forAllDBsDo_loop env f [] h = (None, h)"
| "forAllDBsDo_loop env f (i # rest) h =
     (case invoke env (DB_Open i) h of
        (Some e, h1) \<Rightarrow> (Some e, h1)
      | (None, h1) \<Rightarrow>
          (case f i h1 of
             (Some e, h2) \<Rightarrow> (Some e, h2)
           | (None, h2) \<Rightarrow>
               (case invoke env (DB_Close i) h2 of
                  (Some e, h3) \<Rightarrow> (Some e, h3)
                | (None, h3) \<Rightarrow> forAllDBsDo_loop env f rest h3)))"

definition forAllDBsDo ::
  "'v env \<Rightarrow> client \<Rightarrow> (nat \<Rightarrow> 'v hist \<Rightarrow> err option \<times> 'v hist) \<Rightarrow> 'v hist \<Rightarrow> err option \<times> 'v hist" where
  "forAllDBsDo env cl f h = forAllDBsDo_loop env f [0..<nat (nProcs cl)] h"

text \<open>
  Modelled from the spec: \<^verbatim>\<open>reqMaintAccess\<close> is not in this file.  The spec (4.1):
  it acquires the maintenance lock, executes the closure, releases the lock, and
  returns the closure's error verbatim.
\<close>

definition reqMaintAccess :: "('v hist \<Rightarrow> err option \<times> 'v hist) \<Rightarrow> 'v hist \<Rightarrow> err option \<times> 'v hist" where
  "reqMaintAccess f h = f h"

subsection \<open>Create, Rename, Truncate (lines 31-71)\<close>

definition Create :: "'v env \<Rightarrow> client \<Rightarrow> string \<Rightarrow> 'v hist \<Rightarrow> err option \<times> 'v hist" where
  "Create env cl colName =
     reqMaintAccess (forAllDBsDo env cl (\<lambda>clientDB. invoke env (DB_Create clientDB colName)))"

definition Rename :: "'v env \<Rightarrow> client \<Rightarrow> string \<Rightarrow> string \<Rightarrow> 'v hist \<Rightarrow> err option \<times> 'v hist" where
  "Rename env cl oldName newName =
     reqMaintAccess (forAllDBsDo env cl (\<lambda>clientDB. invoke env (DB_Rename clientDB oldName newName)))"

definition Truncate :: "'v env \<Rightarrow> client \<Rightarrow> string \<Rightarrow> 'v hist \<Rightarrow> err option \<times> 'v hist" where
  "Truncate env cl colName =
     reqMaintAccess (forAllDBsDo env cl (\<lambda>clientDB. invoke env (DB_Truncate clientDB colName)))"

text \<open>
  \<^verbatim>\<open>Drop\<close> and \<^verbatim>\<open>DumpDB\<close> (lines 144-177) run loops of their own over the shards;
  nothing below is about them.
\<close>

subsection \<open>Index (lines 179-229)\<close>

text \<open>The first loop (lines 182-192).\<close>

fun Index_shards ::
  "'v env \<Rightarrow> string \<Rightarrow> string list \<Rightarrow> nat list \<Rightarrow> 'v hist \<Rightarrow> err option \<times> 'v hist" where
  "Index_shards env colName idxPath [] h = (None, h)"
| "Index_shards env colName idxPath (i # rest) h =
     (case invoke env (DB_Open i) h of
        (Some e, h1) \<Rightarrow> (Some e, h1)
      | (None, h1) \<Rightarrow>
          if \<not> e_Use env h1 i colName then (Some (Err ''Collection does not exist''), h1)
          else
            (case invoke env (Col_BPIndex i colName idxPath) h1 of
               (Some e, h2) \<Rightarrow> (Some e, h2)
             | (None, h2) \<Rightarrow>
                 (case invoke env (DB_Close i) h2 of
                    (Some e, h3) \<Rightarrow> (Some e, h3)
                  | (None, h3) \<Rightarrow> Index_shards env colName idxPath rest h3)))"

text \<open>
  Lines 217-224, the values of one document.  \<^verbatim>\<open>htKey % uint64(client.nProcs)\<close>
  panics when the divisor is zero; \<^verbatim>\<open>uint64(n)\<close> of an \<^verbatim>\<open>int\<close> and
  \<^verbatim>\<open>int(x)\<close> of a \<^verbatim>\<open>uint64\<close> keep the 64 bits.
\<close>

fun Index_vals ::
  "'v env \<Rightarrow> client \<Rightarrow> byte list \<Rightarrow> byte list \<Rightarrow> 'v option list \<Rightarrow> 'v hist \<Rightarrow> err option \<times> 'v hist" where
  "Index_vals env cl htIDBytes docIDBytes [] h = (None, h)"
| "Index_vals env cl htIDBytes docIDBytes (None # vals) h =
     Index_vals env cl htIDBytes docIDBytes vals h"
| "Index_vals env cl htIDBytes docIDBytes (Some val # vals) h =
     (let htKey = e_StrHash env (e_Sprint env val) in
      if (word_of_int (nProcs cl) :: uint64) = 0 then (Some (Panic ''integer divide by zero''), h)
      else
        (case invoke env
                (C_sendCmd (sint (htKey mod word_of_int (nProcs cl))) False C_HT_PUT
                   [htIDBytes, e_Buint64 env htKey, docIDBytes]) h of
           (Some e, h1) \<Rightarrow> (Some e, h1)
         | (None, h1) \<Rightarrow> Index_vals env cl htIDBytes docIDBytes vals h1))"

text \<open>Lines 215-225, the documents of one page.\<close>

fun Index_docs ::
  "'v env \<Rightarrow> client \<Rightarrow> byte list \<Rightarrow> string list \<Rightarrow> (uint64 \<times> 'v) list \<Rightarrow> 'v hist \<Rightarrow> err option \<times> 'v hist" where
  "Index_docs env cl htIDBytes idxPath [] h = (None, h)"
| "Index_docs env cl htIDBytes idxPath ((docID, doc) # docs) h =
     (case Index_vals env cl htIDBytes (e_Buint64 env docID) (e_GetIn env doc idxPath) h of
        (Some e, h1) \<Rightarrow> (Some e, h1)
      | (None, h1) \<Rightarrow> Index_docs env cl htIDBytes idxPath docs h1)"

text \<open>Lines 209-226, the pages.\<close>

fun Index_pages ::
  "'v env \<Rightarrow> client \<Rightarrow> string \<Rightarrow> string list \<Rightarrow> byte list \<Rightarrow> uint64 \<Rightarrow> uint64 list \<Rightarrow> 'v hist
     \<Rightarrow> err option \<times> 'v hist" where
  "Index_pages env cl colName idxPath htIDBytes tot [] h = (None, h)"
| "Index_pages env cl colName idxPath htIDBytes tot (page # pages) h =
     (case e_getDocPage env h colName page tot True of
        Inl e \<Rightarrow> (Some e, h @ [C_getDocPage colName page tot True])
      | Inr docs \<Rightarrow>
          (case Index_docs env cl htIDBytes idxPath docs (h @ [C_getDocPage colName page tot True]) of
             (Some e, h1) \<Rightarrow> (Some e, h1)
           | (None, h1) \<Rightarrow> Index_pages env cl colName idxPath htIDBytes tot pages h1))"

text \<open>
  \<^verbatim>\<open>for page := uint64(0); page < total; page++\<close>: the pages \<open>0, 1, ...\<close> below
  \<open>tot\<close>.
\<close>

definition pagesBelow :: "uint64 \<Rightarrow> uint64 list" where
  "pagesBelow tot = map of_nat [0..<unat tot]"

text \<open>Lines 193-227, what follows the first loop.\<close>

definition Index_reindex ::
  "'v env \<Rightarrow> client \<Rightarrow> string \<Rightarrow> string list \<Rightarrow> 'v hist \<Rightarrow> err option \<times> 'v hist" where
  "Index_reindex env cl colName idxPath h =
     (case invoke env C_reloadServer h of
        (Some e, h1) \<Rightarrow> (Some e, h1)
      | (None, h1) \<Rightarrow>
          (let newHTID = e_GetHTIDByPath env (e_schema env h1) colName idxPath in
           if newHTID = - 1 then (Some (Err ''New hash table is missing?!''), h1)
           else
             (let htIDBytes = e_Bint32 env newHTID in
              case e_approxDocCount env h1 colName of
                Inl e \<Rightarrow> (Some e, h1 @ [C_approxDocCount colName])
              | Inr docCount \<Rightarrow>
                  (let tot = docCount div 10000 + 1 in
                   Index_pages env cl colName idxPath htIDBytes tot (pagesBelow tot)
                     (h1 @ [C_approxDocCount colName])))))"

definition Index ::
  "'v env \<Rightarrow> client \<Rightarrow> string \<Rightarrow> string list \<Rightarrow> 'v hist \<Rightarrow> err option \<times> 'v hist" where
  "Index env cl colName idxPath =
     reqMaintAccess (\<lambda>h.
       case Index_shards env colName idxPath [0..<nat (nProcs cl)] h of
         (Some e, h1) \<Rightarrow> (Some e, h1)
       | (None, h1) \<Rightarrow> Index_reindex env cl colName idxPath h1)"

subsection \<open>Unindex (lines 265-281)\<close>

fun Unindex_shards ::
  "'v env \<Rightarrow> string \<Rightarrow> string list \<Rightarrow> nat list \<Rightarrow> 'v hist \<Rightarrow> err option \<times> 'v hist" where
  "Unindex_shards env colName idxPath [] h = (None, h)"
| "Unindex_shards env colName idxPath (i # rest) h =
     (case invoke env (DB_Open i) h of
        (Some e, h1) \<Rightarrow> (Some e, h1)
      | (None, h1) \<Rightarrow>
          if \<not> e_Use env h1 i colName then Unindex_shards env colName idxPath rest h1
          else
            (case invoke env (Col_Unindex i colName idxPath) h1 of
               (Some e, h2) \<Rightarrow> (Some e, h2)
             | (None, h2) \<Rightarrow>
                 (case invoke env (DB_Close i) h2 of
                    (Some e, h3) \<Rightarrow> (Some e, h3)
                  | (None, h3) \<Rightarrow> Unindex_shards env colName idxPath rest h3)))"

definition Unindex ::
  "'v env \<Rightarrow> client \<Rightarrow> string \<Rightarrow> string list \<Rightarrow> 'v hist \<Rightarrow> err option \<times> 'v hist" where
  "Unindex env cl colName idxPath =
     reqMaintAccess (Unindex_shards env colName idxPath [0..<nat (nProcs cl)])"

subsection \<open>Scrub (lines 73-142)\<close>

text \<open>The loop of lines 92-96, inside the closure of lines 87-98.\<close>

fun Scrub_recreate ::
  "'v env \<Rightarrow> nat \<Rightarrow> string \<Rightarrow> string list list \<Rightarrow> 'v hist \<Rightarrow> err option \<times> 'v hist" where
  "Scrub_recreate env clientDB tmpColName [] h = (None, h)"
| "Scrub_recreate env clientDB tmpColName (existingIndex # rest) h =
     (case invoke env (Col_BPIndex clientDB tmpColName existingIndex) h of
        (Some e, h1) \<Rightarrow> (Some e, h1)
      | (None, h1) \<Rightarrow> Scrub_recreate env clientDB tmpColName rest h1)"

text \<open>The closure of lines 87-98.\<close>

definition Scrub_create_fun ::
  "'v env \<Rightarrow> string \<Rightarrow> string list list \<Rightarrow> nat \<Rightarrow> 'v hist \<Rightarrow> err option \<times> 'v hist" where
  "Scrub_create_fun env tmpColName existingIndexes clientDB h =
     (case invoke env (DB_Create clientDB tmpColName) h of
        (Some e, h1) \<Rightarrow> (Some e, h1)
      | (None, h1) \<Rightarrow> Scrub_recreate env clientDB tmpColName existingIndexes h1)"

text \<open>The closure of lines 127-134.\<close>

definition Scrub_swap_fun ::
  "'v env \<Rightarrow> string \<Rightarrow> string \<Rightarrow> nat \<Rightarrow> 'v hist \<Rightarrow> err option \<times> 'v hist" where
  "Scrub_swap_fun env colName tmpColName clientDB h =
     (case invoke env (DB_Drop clientDB colName) h of
        (Some e, h1) \<Rightarrow> (Some e, h1)
      | (None, h1) \<Rightarrow>
          (case invoke env (DB_Rename clientDB tmpColName colName) h1 of
             (Some e, h2) \<Rightarrow> (Some e, h2)
           | (None, h2) \<Rightarrow> (None, h2)))"

text \<open>Lines 120-124, the documents of one page.\<close>

fun Scrub_docs ::
  "'v env \<Rightarrow> int32 \<Rightarrow> (uint64 \<times> 'v) list \<Rightarrow> 'v hist \<Rightarrow> err option \<times> 'v hist" where
  "Scrub_docs env tmpColID [] h = (None, h)"
| "Scrub_docs env tmpColID ((docID, doc) # docs) h =
     (case invoke env (C_insertRecovery tmpColID docID doc) h of
        (Some e, h1) \<Rightarrow> (Some e, h1)
      | (None, h1) \<Rightarrow> Scrub_docs env tmpColID docs h1)"

text \<open>Lines 115-125, the pages.\<close>

fun Scrub_pages ::
  "'v env \<Rightarrow> string \<Rightarrow> int32 \<Rightarrow> uint64 \<Rightarrow> uint64 list \<Rightarrow> 'v hist \<Rightarrow> err option \<times> 'v hist" where
  "Scrub_pages env colName tmpColID tot [] h = (None, h)"
| "Scrub_pages env colName tmpColID tot (page # pages) h =
     (case e_getDocPage env h colName page tot True of
        Inl e \<Rightarrow> (Some e, h @ [C_getDocPage colName page tot True])
      | Inr docs \<Rightarrow>
          (case Scrub_docs env tmpColID docs (h @ [C_getDocPage colName page tot True]) of
             (Some e, h1) \<Rightarrow> (Some e, h1)
           | (None, h1) \<Rightarrow> Scrub_pages env colName tmpColID tot pages h1))"

text \<open>Line 86.\<close>

definition tmpName :: "string \<Rightarrow> int \<Rightarrow> string" where
  "tmpName colName nanos = ''scrub-'' @ colName @ ''-'' @ intDec nanos"

text \<open>Lines 85-98: the temporary collection and its indexes.\<close>

definition Scrub_create ::
  "'v env \<Rightarrow> client \<Rightarrow> string \<Rightarrow> string list list \<Rightarrow> 'v hist \<Rightarrow> err option \<times> 'v hist" where
  "Scrub_create env cl tmpColName existingIndexes h =
     forAllDBsDo env cl (Scrub_create_fun env tmpColName existingIndexes) h"

text \<open>Lines 99-125: the reload, the id of the temporary collection, the documents.\<close>

definition Scrub_migrate ::
  "'v env \<Rightarrow> string \<Rightarrow> string \<Rightarrow> 'v hist \<Rightarrow> err option \<times> 'v hist" where
  "Scrub_migrate env colName tmpColName h =
     (case invoke env C_reloadServer h of
        (Some e, h1) \<Rightarrow> (Some e, h1)
      | (None, h1) \<Rightarrow>
          (case map_of (colNameLookup (e_schema env h1)) tmpColName of
             None \<Rightarrow> (Some (Err ''TmpCol went missing?!''), h1)
           | Some tmpColID \<Rightarrow>
               (case e_approxDocCount env h1 colName of
                  Inl e \<Rightarrow> (Some e, h1 @ [C_approxDocCount colName])
                | Inr docCount \<Rightarrow>
                    (let tot = docCount div 10000 + 1 in
                     Scrub_pages env colName tmpColID tot (pagesBelow tot)
                       (h1 @ [C_approxDocCount colName])))))"

text \<open>Lines 126-140: the swap and the last reload.\<close>

definition Scrub_swap ::
  "'v env \<Rightarrow> client \<Rightarrow> string \<Rightarrow> string \<Rightarrow> 'v hist \<Rightarrow> err option \<times> 'v hist" where
  "Scrub_swap env cl colName tmpColName h =
     (case forAllDBsDo env cl (Scrub_swap_fun env colName tmpColName) h of
        (Some e, h1) \<Rightarrow> (Some e, h1)
      | (None, h1) \<Rightarrow>
          (case invoke env C_reloadServer h1 of
             (Some e, h2) \<Rightarrow> (Some e, h2)
           | (None, h2) \<Rightarrow> (None, h2)))"

text \<open>Lines 82-84: the index paths of the collection, copied.\<close>

definition existingIndexesOf :: "schema \<Rightarrow> int32 \<Rightarrow> string list list" where
  "existingIndexesOf s colID =
     (case map_of (indexPaths s) colID of None \<Rightarrow> [] | Some paths \<Rightarrow> map snd paths)"

definition Scrub :: "'v env \<Rightarrow> client \<Rightarrow> string \<Rightarrow> 'v hist \<Rightarrow> err option \<times> 'v hist" where
  "Scrub env cl colName =
     reqMaintAccess (\<lambda>h.
       case map_of (colNameLookup (e_schema env h)) colName of
         None \<Rightarrow> (Some (Err ''Collection does not exist''), h)
       | Some colID \<Rightarrow>
           (let existingIndexes = existingIndexesOf (e_schema env h) colID;
                tmpColName = tmpName colName (e_UnixNano env h)
            in case Scrub_create env cl tmpColName existingIndexes h of
                 (Some e, h1) \<Rightarrow> (Some e, h1)
               | (None, h1) \<Rightarrow>
                   (case Scrub_migrate env colName tmpColName h1 of
                      (Some e, h2) \<Rightarrow> (Some e, h2)
                    | (None, h2) \<Rightarrow> Scrub_swap env cl colName tmpColName h2)))"

text \<open>
  The creation phase as the spec words it (4.3, step 4): the temporary collection
  is created on every shard, then every index path is recreated, each creation a
  uniform shard application of its own.  It is compared with \<open>Scrub_create\<close>.
\<close>

fun spec_recreate_paths ::
  "'v env \<Rightarrow> client \<Rightarrow> string \<Rightarrow> string list list \<Rightarrow> 'v hist \<Rightarrow> err option \<times> 'v hist" where
  "spec_recreate_paths env cl tmpColName [] h = (None, h)"
| "spec_recreate_paths env cl tmpColName (p # ps) h =
     (case forAllDBsDo env cl (\<lambda>clientDB. invoke env (Col_BPIndex clientDB tmpColName p)) h of
        (Some e, h1) \<Rightarrow> (Some e, h1)
      | (None, h1) \<Rightarrow> spec_recreate_paths env cl tmpColName ps h1)"

definition spec_create_phase ::
  "'v env \<Rightarrow> client \<Rightarrow> string \<Rightarrow> string list list \<Rightarrow> 'v hist \<Rightarrow> err option \<times> 'v hist" where
  "spec_create_phase env cl tmpColName existingIndexes h =
     (case forAllDBsDo env cl (\<lambda>clientDB. invoke env (DB_Create clientDB tmpColName)) h of
        (Some e, h1) \<Rightarrow> (Some e, h1)
      | (None, h1) \<Rightarrow> spec_recreate_paths env cl tmpColName existingIndexes h1)"

subsection \<open>The read accessors (lines 40-53 and 231-263)\<close>

text \<open>
  \<^verbatim>\<open>strings.Split(s, sep)\<close> of the Go library.  With a separator that is not empty it
  cuts \<open>s\<close> at the first occurrence of \<open>sep\<close>, goes on behind it, and returns the
  pieces in order, the rest of the string last (one piece, \<open>s\<close> itself, when \<open>sep\<close>
  does not occur).  \<open>splitFrom sep cur s\<close> reads \<open>s\<close> from the left, \<open>cur\<close> being the
  piece read so far.  With the empty separator it returns the UTF-8 sequences of \<open>s\<close>.
\<close>

function splitFrom :: "string \<Rightarrow> string \<Rightarrow> string \<Rightarrow> string list" where
  "splitFrom sep cur s =
     (if s = [] then [cur]
      else if sep \<noteq> [] \<and> prefix sep s then cur # splitFrom sep [] (drop (length sep) s)
      else splitFrom sep (cur @ [hd s]) (tl s))"
  by pat_completeness auto
termination
  by (relation "measure (\<lambda>(sep, cur, s). length s)") auto

declare splitFrom.simps [simp del]

definition strings_Split :: "'v env \<Rightarrow> string \<Rightarrow> string \<Rightarrow> string list" where
  "strings_Split env s sep = (if sep = [] then e_explode env s else splitFrom sep [] s)"

text \<open>
  \<^verbatim>\<open>client.Ping()\<close>, and \<^verbatim>\<open>tdlog.Noticef\<close> with the given format when it fails.
  \<^verbatim>\<open>opLock\<close> orders the accessor against other goroutines and is not modelled.
\<close>

definition pingAndLog :: "'v env \<Rightarrow> client \<Rightarrow> string \<Rightarrow> 'v hist \<Rightarrow> 'v hist" where
  "pingAndLog env cl format h =
     (case invoke env C_Ping h of
        (Some e, h1) \<Rightarrow> h1 @ [Log_Noticef format (cid cl) e]
      | (None, h1) \<Rightarrow> h1)"

definition AllCols :: "'v env \<Rightarrow> client \<Rightarrow> 'v hist \<Rightarrow> string list \<times> 'v hist" where
  "AllCols env cl h =
     (let h1 = pingAndLog env cl
                 ''Client %d: failed to ping before returning collection names - %v'' h;
          names = map fst (colNameLookup (e_schema env h1))
      in (sort names, h1))"

definition AllIndexesJointPaths ::
  "'v env \<Rightarrow> client \<Rightarrow> string \<Rightarrow> 'v hist \<Rightarrow> (err + string list) \<times> 'v hist" where
  "AllIndexesJointPaths env cl colName h =
     (let h1 = pingAndLog env cl
                 ''Client %d: failed to ping before returning index paths - %v'' h
      in case map_of (colNameLookup (e_schema env h1)) colName of
           None \<Rightarrow> (Inl (Err (''Collection '' @ colName @ '' does not exist'')), h1)
         | Some colID \<Rightarrow>
             (let paths = (case map_of (indexPathsJoint (e_schema env h1)) colID of
                             None \<Rightarrow> []
                           | Some joint \<Rightarrow> map fst joint)
              in (Inr (sort paths), h1)))"

definition AllIndexes ::
  "'v env \<Rightarrow> client \<Rightarrow> string \<Rightarrow> 'v hist \<Rightarrow> (err + string list list) \<times> 'v hist" where
  "AllIndexes env cl colName h =
     (case AllIndexesJointPaths env cl colName h of
        (Inl e, h1) \<Rightarrow> (Inl e, h1)
      | (Inr jointPath, h1) \<Rightarrow>
          (Inr (map (\<lambda>aPath. strings_Split env aPath (e_INDEX_PATH_SEP env)) jointPath), h1))"

section \<open>Histories, call lists and example collaborators\<close>

subsection \<open>The calls made since a history\<close>

text \<open>
  The calls made since the history \<open>h\<close>, in a later history \<open>H\<close>.
\<close>

definition new_calls :: "'v hist \<Rightarrow> 'v hist \<Rightarrow> 'v call list" where
  "new_calls h H = drop (length h) H"

text \<open>
  \<open>every_new Q h tr\<close>: every call of \<open>tr\<close>, made in this order from the history
  \<open>h\<close>, satisfies \<open>Q\<close> at the moment it is made (\<open>Q g c\<close>: the call \<open>c\<close> made when the
  history is \<open>g\<close>).  \<open>ext Q h h'\<close>: the history \<open>h'\<close> extends \<open>h\<close> by such calls.
\<close>

fun every_new :: "('v hist \<Rightarrow> 'v call \<Rightarrow> bool) \<Rightarrow> 'v hist \<Rightarrow> 'v call list \<Rightarrow> bool" where
  "every_new Q h [] = True"
| "every_new Q h (c # cs) = (Q h c \<and> every_new Q (h @ [c]) cs)"

definition ext :: "('v hist \<Rightarrow> 'v call \<Rightarrow> bool) \<Rightarrow> 'v hist \<Rightarrow> 'v hist \<Rightarrow> bool" where
  "ext Q h h' = (\<exists>tr. h' = h @ tr \<and> every_new Q h tr)"

text \<open>
  Properties of a call at its moment: a call on a shard store; a call on the client;
  an index creation made where \<^verbatim>\<open>Use(colName)\<close> is not nil; a close made after the
  index removal on the same shard (since the history \<open>h0\<close>).
\<close>

definition shard_call :: "'v hist \<Rightarrow> 'v call \<Rightarrow> bool" where
  "shard_call g c = (shard_of c \<noteq> None)"

definition client_call :: "'v hist \<Rightarrow> 'v call \<Rightarrow> bool" where
  "client_call g c = (shard_of c = None)"

definition guarded :: "'v env \<Rightarrow> string \<Rightarrow> 'v hist \<Rightarrow> 'v call \<Rightarrow> bool" where
  "guarded env colName g c =
     (\<forall>i n p. c = Col_BPIndex i n p \<longrightarrow> e_Use env g i colName)"

definition close_follows_unindex ::
  "'v hist \<Rightarrow> string \<Rightarrow> string list \<Rightarrow> 'v hist \<Rightarrow> 'v call \<Rightarrow> bool" where
  "close_follows_unindex h0 colName idxPath g c =
     (\<forall>i. c = DB_Close i \<longrightarrow> Col_Unindex i colName idxPath \<in> set (new_calls h0 g))"

text \<open>
  The page fetches, the recovery inserts and the commands sent, among calls; the
  shards opened, and the shards closed, by a list of calls.
\<close>

fun isFetch :: "'v call \<Rightarrow> bool" where
  "isFetch (C_getDocPage n p t b) = True"
| "isFetch c = False"

fun isInsert :: "'v call \<Rightarrow> bool" where
  "isInsert (C_insertRecovery ci di d) = True"
| "isInsert c = False"

fun isSend :: "'v call \<Rightarrow> bool" where
  "isSend (C_sendCmd r b op ps) = True"
| "isSend c = False"

fun opened :: "'v call list \<Rightarrow> nat list" where
  "opened [] = []"
| "opened (DB_Open i # cs) = i # opened cs"
| "opened (c # cs) = opened cs"

fun closed :: "'v call list \<Rightarrow> nat list" where
  "closed [] = []"
| "closed (DB_Close i # cs) = i # closed cs"
| "closed (c # cs) = closed cs"

text \<open>A call of a given kind, at any moment.\<close>

definition call_is :: "('v call \<Rightarrow> bool) \<Rightarrow> 'v hist \<Rightarrow> 'v call \<Rightarrow> bool" where
  "call_is P g c = P c"

subsection \<open>Lists of calls\<close>

text \<open>
  A list of calls attempted in order, up to the first that returns an error.
\<close>

fun doCalls :: "'v env \<Rightarrow> 'v call list \<Rightarrow> 'v hist \<Rightarrow> err option \<times> 'v hist" where
  "doCalls env [] h = (None, h)"
| "doCalls env (c # cs) h =
     (case invoke env c h of
        (Some e, h1) \<Rightarrow> (Some e, h1)
      | (None, h1) \<Rightarrow> doCalls env cs h1)"

text \<open>
  The structural operations that go through \<open>forAllDBsDo\<close>, what each of them calls
  on the handle of shard \<open>i\<close>, and the calls of one whole iteration of the loop.
\<close>

datatype shardOp =
    OpCreate string
  | OpRename string string
  | OpTruncate string
  | OpScrubCreate string "string list list"
  | OpScrubSwap string string

fun runOp :: "'v env \<Rightarrow> client \<Rightarrow> shardOp \<Rightarrow> 'v hist \<Rightarrow> err option \<times> 'v hist" where
  "runOp env cl (OpCreate colName) = Create env cl colName"
| "runOp env cl (OpRename oldName newName) = Rename env cl oldName newName"
| "runOp env cl (OpTruncate colName) = Truncate env cl colName"
| "runOp env cl (OpScrubCreate tmpColName existingIndexes) = Scrub_create env cl tmpColName existingIndexes"
| "runOp env cl (OpScrubSwap colName tmpColName) = forAllDBsDo env cl (Scrub_swap_fun env colName tmpColName)"

fun opCalls :: "shardOp \<Rightarrow> nat \<Rightarrow> 'v call list" where
  "opCalls (OpCreate colName) i = [DB_Create i colName]"
| "opCalls (OpRename oldName newName) i = [DB_Rename i oldName newName]"
| "opCalls (OpTruncate colName) i = [DB_Truncate i colName]"
| "opCalls (OpScrubCreate tmpColName existingIndexes) i =
     DB_Create i tmpColName # map (Col_BPIndex i tmpColName) existingIndexes"
| "opCalls (OpScrubSwap colName tmpColName) i = [DB_Drop i colName, DB_Rename i tmpColName colName]"

definition shardCalls :: "shardOp \<Rightarrow> nat \<Rightarrow> 'v call list" where
  "shardCalls op i = DB_Open i # opCalls op i @ [DB_Close i]"

text \<open>
  \<^verbatim>\<open>Unindex\<close> in the words of the spec (4.2): for every shard in order, open it; where
  the collection is absent, skip the shard and go on; where it is present, remove the
  index structure and close the shard.  These are the calls to make, from the history
  \<open>h\<close>, as long as no call fails.
\<close>

fun unindexTrace :: "'v env \<Rightarrow> string \<Rightarrow> string list \<Rightarrow> nat list \<Rightarrow> 'v hist \<Rightarrow> 'v call list" where
  "unindexTrace env colName idxPath [] h = []"
| "unindexTrace env colName idxPath (i # rest) h =
     (if e_Use env (h @ [DB_Open i]) i colName
      then [DB_Open i, Col_Unindex i colName idxPath, DB_Close i]
             @ unindexTrace env colName idxPath rest
                 (h @ [DB_Open i, Col_Unindex i colName idxPath, DB_Close i])
      else DB_Open i # unindexTrace env colName idxPath rest (h @ [DB_Open i]))"

text \<open>
  The put command for a leaf value \<open>val\<close> of the document \<open>docID\<close>: sent to the
  shard \<open>hash mod N\<close>, it carries the routing identity, the hashed value and the
  document id.  The hash of a value is \<^verbatim>\<open>db.StrHash(fmt.Sprint(val))\<close>.
\<close>

definition putCmd :: "'v env \<Rightarrow> client \<Rightarrow> byte list \<Rightarrow> uint64 \<Rightarrow> 'v \<Rightarrow> 'v call" where
  "putCmd env cl htIDBytes docID val =
     C_sendCmd (uint (e_StrHash env (e_Sprint env val)) mod nProcs cl) False C_HT_PUT
       [htIDBytes, e_Buint64 env (e_StrHash env (e_Sprint env val)), e_Buint64 env docID]"

text \<open>
  The values that are not nil; the put commands of one page: for every document, for
  every non-nil leaf value; a command sent that is such a put command.
\<close>

fun nonNil :: "'v option list \<Rightarrow> 'v list" where
  "nonNil [] = []"
| "nonNil (None # vals) = nonNil vals"
| "nonNil (Some val # vals) = val # nonNil vals"

definition pagePuts ::
  "'v env \<Rightarrow> client \<Rightarrow> byte list \<Rightarrow> string list \<Rightarrow> (uint64 \<times> 'v) list \<Rightarrow> 'v call list" where
  "pagePuts env cl htIDBytes idxPath docs =
     concat (map (\<lambda>(docID, doc). map (putCmd env cl htIDBytes docID) (nonNil (e_GetIn env doc idxPath))) docs)"

definition routed_put :: "'v env \<Rightarrow> client \<Rightarrow> 'v hist \<Rightarrow> 'v call \<Rightarrow> bool" where
  "routed_put env cl g c =
     (\<forall>rank retry op params. c = C_sendCmd rank retry op params \<longrightarrow>
        (\<exists>htID docID val. c = putCmd env cl (e_Bint32 env htID) docID val))"

text \<open>
  What a call answers, whichever collaborator it is made on (\<open>None\<close>: no error), and
  a list of such calls attempted in order, up to the first that returns an error.
\<close>

fun reply :: "'v env \<Rightarrow> 'v hist \<Rightarrow> 'v call \<Rightarrow> err option" where
  "reply env h (C_getDocPage n p t b) =
     (case e_getDocPage env h n p t b of Inl e \<Rightarrow> Some e | Inr docs \<Rightarrow> None)"
| "reply env h (C_approxDocCount n) =
     (case e_approxDocCount env h n of Inl e \<Rightarrow> Some e | Inr k \<Rightarrow> None)"
| "reply env h c = e_call env h c"

fun runCalls :: "'v env \<Rightarrow> 'v call list \<Rightarrow> 'v hist \<Rightarrow> err option \<times> 'v hist" where
  "runCalls env [] h = (None, h)"
| "runCalls env (c # cs) h =
     (case reply env h c of
        Some e \<Rightarrow> (Some e, h @ [c])
      | None \<Rightarrow> runCalls env cs (h @ [c]))"

text \<open>
  The scan of \<^verbatim>\<open>Index\<close> in the words of the spec (4.2, step 4): for each page in order,
  fetch the page (tolerant mode), then for every document of the page and every non-nil
  leaf value dispatch the put command.  These are the calls to make, from the history
  \<open>h\<close>, as long as no call fails; a page that cannot be fetched ends the list.
\<close>

fun indexPagesTrace ::
  "'v env \<Rightarrow> client \<Rightarrow> string \<Rightarrow> string list \<Rightarrow> byte list \<Rightarrow> uint64 \<Rightarrow> uint64 list \<Rightarrow> 'v hist
     \<Rightarrow> 'v call list" where
  "indexPagesTrace env cl colName idxPath htIDBytes tot [] h = []"
| "indexPagesTrace env cl colName idxPath htIDBytes tot (page # pages) h =
     (case e_getDocPage env h colName page tot True of
        Inl e \<Rightarrow> [C_getDocPage colName page tot True]
      | Inr docs \<Rightarrow>
          (C_getDocPage colName page tot True # pagePuts env cl htIDBytes idxPath docs)
          @ indexPagesTrace env cl colName idxPath htIDBytes tot pages
              (h @ C_getDocPage colName page tot True # pagePuts env cl htIDBytes idxPath docs))"

text \<open>The document ids of the recovery inserts among calls.\<close>

fun insertedIDs :: "'v call list \<Rightarrow> uint64 list" where
  "insertedIDs [] = []"
| "insertedIDs (C_insertRecovery ci di d # cs) = di # insertedIDs cs"
| "insertedIDs (c # cs) = insertedIDs cs"

text \<open>
  Modelled from the spec: \<^verbatim>\<open>getDocPage\<close> is not in this file.  The spec (4.2, 8): the
  documents of the collection are partitioned into the pages \<open>0, ..., total - 1\<close>; the
  pages together hold every document id of the collection exactly once.  \<open>pg p\<close> is
  the page \<open>p\<close>, \<open>ids\<close> the document ids of the collection.
\<close>

definition pages_partition :: "(uint64 \<Rightarrow> (uint64 \<times> 'v) list) \<Rightarrow> uint64 \<Rightarrow> uint64 set \<Rightarrow> bool" where
  "pages_partition pg tot ids =
     (distinct (map fst (concat (map pg (pagesBelow tot)))) \<and>
      set (map fst (concat (map pg (pagesBelow tot)))) = ids)"

text \<open>
  \<^verbatim>\<open>strings.Join\<close> of the Go library: the pieces, with the separator between them.
\<close>

fun strings_Join :: "string list \<Rightarrow> string \<Rightarrow> string" where
  "strings_Join [] sep = []"
| "strings_Join [a] sep = a"
| "strings_Join (a # b # rest) sep = a @ sep @ strings_Join (b # rest) sep"

subsection \<open>Example collaborators\<close>

text \<open>
  Concrete collaborators and clients, on which the theorems below are instantiated.
  \<open>env0\<close> never fails, has every collection on every shard, an empty schema cache and
  no documents; the others differ from it in the fields given.
\<close>

definition env0 :: "nat env" where
  "env0 = \<lparr> e_call = (\<lambda>h c. None), e_Use = (\<lambda>h i n. True),
      e_schema = (\<lambda>h. \<lparr>colNameLookup = [], indexPaths = [], indexPathsJoint = []\<rparr>),
      e_approxDocCount = (\<lambda>h n. Inr 0), e_getDocPage = (\<lambda>h n p t b. Inr []),
      e_UnixNano = (\<lambda>h. 7), e_GetIn = (\<lambda>d p. []), e_Sprint = (\<lambda>v. []),
      e_StrHash = (\<lambda>s. 0), e_Bint32 = (\<lambda>w. []), e_Buint64 = (\<lambda>w. []),
      e_GetHTIDByPath = (\<lambda>s n p. 0), e_explode = (\<lambda>s. map (\<lambda>c. [c]) s), e_INDEX_PATH_SEP = ''!'' \<rparr>"

definition client_of :: "int \<Rightarrow> client" where
  "client_of n = \<lparr> nProcs = n, cid = 1 \<rparr>"

definition env_absent :: "nat env" where
  "env_absent = env0\<lparr>e_Use := \<lambda>h i n. False\<rparr>"

definition env_reload_down :: "nat env" where
  "env_reload_down = env0\<lparr>e_call := \<lambda>h c. if c = C_reloadServer then Some (Err ''down'') else None\<rparr>"

definition env_truncate_fails :: "nat env" where
  "env_truncate_fails =
     env0\<lparr>e_call := \<lambda>h c. if c = DB_Truncate 2 ''C'' then Some (Err ''shard 2: disk'') else None\<rparr>"

definition env_close_fails :: "nat env" where
  "env_close_fails =
     env0\<lparr>e_call := \<lambda>h c. if c = DB_Close 2 then Some (Err ''shard 2: close'') else None\<rparr>"

definition env_half :: "nat env" where
  "env_half = env0\<lparr> e_Use := \<lambda>h i n. i = 1 \<rparr>"

definition schema_c :: schema where
  "schema_c = \<lparr> colNameLookup = [(''c'', 1), (''scrub-c-7'', 2)],
                indexPaths = [(1, [(5, [''a''])])],
                indexPathsJoint = [(1, [(''b!x'', 6), (''a'', 5)])] \<rparr>"

definition env_c :: "nat env" where
  "env_c = env0\<lparr> e_schema := \<lambda>h. schema_c,
                  e_getDocPage := \<lambda>h n p t b. Inr [(11, 100), (12, 200)] \<rparr>"

definition env_c_lost :: "nat env" where
  "env_c_lost = env_c\<lparr> e_schema := \<lambda>h. schema_c\<lparr>colNameLookup := [(''c'', 1)]\<rparr>,
                       e_GetHTIDByPath := \<lambda>s n p. - 1 \<rparr>"

definition env_c_insert_fails :: "nat env" where
  "env_c_insert_fails =
     env_c\<lparr> e_call := \<lambda>h c. if c = C_insertRecovery 2 12 200 then Some (Err ''insert'') else None \<rparr>"

definition env_idx :: "nat env" where
  "env_idx = env0\<lparr> e_getDocPage := \<lambda>h n p t b. Inr [(11, 100), (12, 200)],
                    e_GetIn := \<lambda>d p. [Some d, None],
                    e_Sprint := \<lambda>v. replicate v CHR ''x'',
                    e_StrHash := \<lambda>s. of_nat (length s),
                    e_Bint32 := \<lambda>w. [ucast w],
                    e_Buint64 := \<lambda>w. [ucast w],
                    e_GetHTIDByPath := \<lambda>s n p. 5 \<rparr>"

definition env_25k :: "nat env" where
  "env_25k = env_idx\<lparr> e_schema := \<lambda>h. schema_c,
                       e_approxDocCount := \<lambda>h n. Inr 25000,
                       e_getDocPage := \<lambda>h n p t b. Inr [(p + 40, unat p)] \<rparr>"

definition env_ping_down :: "nat env" where
  "env_ping_down =
     env0\<lparr> e_call := \<lambda>h c. if c = C_Ping then Some (Err ''timeout'') else None,
            e_schema := \<lambda>h. schema_c\<lparr>colNameLookup := [(''scrub-c-7'', 2), (''c'', 1)]\<rparr> \<rparr>"

section \<open>Properties\<close>

subsection \<open>Histories\<close>

declare invoke_def [simp]

lemma every_new_append:
  "every_new Q h (a @ b) = (every_new Q h a \<and> every_new Q (h @ a) b)"
  by (induction a arbitrary: h) auto

lemma every_new_nth:
  "every_new Q h tr \<Longrightarrow> j < length tr \<Longrightarrow> Q (h @ take j tr) (tr ! j)"
proof (induction tr arbitrary: h j)
  case Nil
  then show ?case by simp
next
  case (Cons c cs)
  show ?case
  proof (cases j)
    case 0
    with Cons.prems show ?thesis by simp
  next
    case (Suc k)
    with Cons.prems have "Q ((h @ [c]) @ take k cs) (cs ! k)"
      by (intro Cons.IH) auto
    with Suc show ?thesis by simp
  qed
qed

lemma ext_refl: "ext Q h h"
  by (simp add: ext_def)

lemma ext_step: "Q h c \<Longrightarrow> ext Q h (h @ [c])"
  unfolding ext_def by (rule exI [of _ "[c]"]) simp

lemma ext_trans:
  assumes "ext Q h h1" "ext Q h1 h2"
  shows "ext Q h h2"
proof -
  from assms obtain t1 t2 where "h1 = h @ t1" "every_new Q h t1" "h2 = h1 @ t2" "every_new Q h1 t2"
    by (auto simp: ext_def)
  then have "h2 = h @ (t1 @ t2) \<and> every_new Q h (t1 @ t2)"
    by (simp add: every_new_append)
  then show ?thesis unfolding ext_def by blast
qed

lemma ext_step_then: "Q h c \<Longrightarrow> ext Q (h @ [c]) h2 \<Longrightarrow> ext Q h h2"
  by (blast intro: ext_trans ext_step)

lemma ext_nth:
  assumes "ext Q h H" "length h \<le> j" "j < length H"
  shows "Q (take j H) (H ! j)"
proof -
  from assms(1) obtain tr where tr: "H = h @ tr" "every_new Q h tr"
    by (auto simp: ext_def)
  with assms have "j - length h < length tr" by auto
  from every_new_nth [OF tr(2) this] assms(2) tr(1) show ?thesis
    by (simp add: nth_append)
qed

lemma ext_mono: "ext Q h H \<Longrightarrow> (\<And>g c. Q g c \<Longrightarrow> Q' g c) \<Longrightarrow> ext Q' h H"
proof -
  have "every_new Q h tr \<Longrightarrow> (\<And>g c. Q g c \<Longrightarrow> Q' g c) \<Longrightarrow> every_new Q' h tr" for tr
    by (induction tr arbitrary: h) auto
  then show "ext Q h H \<Longrightarrow> (\<And>g c. Q g c \<Longrightarrow> Q' g c) \<Longrightarrow> ext Q' h H"
    unfolding ext_def by blast
qed

lemma ext_app: "ext Q h0 h \<Longrightarrow> every_new Q h tr \<Longrightarrow> ext Q h0 (h @ tr)"
  unfolding ext_def by (auto simp: every_new_append)

subsection \<open>Index: the collection check\<close>

lemma guarded_simps [simp]:
  "guarded env colName g (DB_Open i)"
  "guarded env colName g (DB_Close i)"
  "guarded env colName g (Col_BPIndex i n p) = e_Use env g i colName"
  by (auto simp: guarded_def)

lemma client_call_simps [simp]:
  "client_call g C_reloadServer"
  "client_call g C_Ping"
  "client_call g (C_approxDocCount n)"
  "client_call g (C_getDocPage n pg tot b)"
  "client_call g (C_insertRecovery ci di d)"
  "client_call g (C_sendCmd r b op ps)"
  "client_call g (Log_Noticef f cn e)"
  by (auto simp: client_call_def)

lemma ext_Index_shards:
  "Index_shards env colName idxPath xs h = (r, h') \<Longrightarrow> ext (guarded env colName) h0 h \<Longrightarrow>
   ext (guarded env colName) h0 h'"
proof (induction xs arbitrary: h)
  case Nil
  then show ?case by simp
next
  case (Cons i rest)
  note IH = Cons.IH
  from Cons.prems show ?case
    by (auto split: option.splits if_splits intro: IH intro!: ext_app)
qed

lemma ext_Index_vals:
  "Index_vals env cl a b vals h = (r, h') \<Longrightarrow> ext client_call h0 h \<Longrightarrow> ext client_call h0 h'"
proof (induction vals arbitrary: h)
  case Nil
  then show ?case by simp
next
  case (Cons v vals)
  note IH = Cons.IH
  from Cons.prems show ?case
    by (cases v) (auto split: option.splits if_splits simp: Let_def intro: IH intro!: ext_app)
qed

lemma ext_Index_docs:
  "Index_docs env cl a p docs h = (r, h') \<Longrightarrow> ext client_call h0 h \<Longrightarrow> ext client_call h0 h'"
proof (induction docs arbitrary: h)
  case Nil
  then show ?case by simp
next
  case (Cons d docs)
  note IH = Cons.IH
  from Cons.prems show ?case
    by (cases d) (auto split: prod.splits option.splits intro: IH ext_Index_vals)
qed

lemma ext_Index_pages:
  "Index_pages env cl colName p a tot pages h = (r, h') \<Longrightarrow> ext client_call h0 h \<Longrightarrow>
   ext client_call h0 h'"
proof (induction pages arbitrary: h)
  case Nil
  then show ?case by simp
next
  case (Cons page pages)
  note IH = Cons.IH
  from Cons.prems show ?case
    by (fastforce split: sum.splits prod.splits option.splits intro: IH ext_Index_docs intro!: ext_app)
qed

lemma ext_Index_reindex:
  "Index_reindex env cl colName p h = (r, h') \<Longrightarrow> ext client_call h0 h \<Longrightarrow> ext client_call h0 h'"
  unfolding Index_reindex_def
  by (fastforce split: sum.splits prod.splits option.splits if_splits simp: Let_def
        intro: ext_Index_pages intro!: ext_app)

lemma client_call_guarded: "client_call g c \<Longrightarrow> guarded env colName g c"
  by (auto simp: client_call_def guarded_def)

lemma ext_weaken:
  assumes "ext Q h1 h2" "ext Q' h0 h1" "\<And>g c. Q g c \<Longrightarrow> Q' g c"
  shows "ext Q' h0 h2"
  using assms by (blast intro: ext_trans ext_mono)

lemma ext_Index:
  "ext (guarded env colName) h (snd (Index env cl colName idxPath h))"
proof -
  obtain r1 h1 where 1: "Index_shards env colName idxPath [0..<nat (nProcs cl)] h = (r1, h1)"
    by (cases "Index_shards env colName idxPath [0..<nat (nProcs cl)] h")
  then have e1: "ext (guarded env colName) h h1"
    by (rule ext_Index_shards) (rule ext_refl)
  obtain r2 h2 where 2: "Index_reindex env cl colName idxPath h1 = (r2, h2)"
    by (cases "Index_reindex env cl colName idxPath h1")
  then have "ext client_call h1 h2"
    by (rule ext_Index_reindex) (rule ext_refl)
  then have e2: "ext (guarded env colName) h h2"
    using e1 by (rule ext_weaken) (rule client_call_guarded)
  from 1 2 e1 e2 show ?thesis
    by (cases r1) (simp_all add: Index_def reqMaintAccess_def)
qed

text \<open>
  Claim C6.  \<^verbatim>\<open>Index\<close> asks every shard whether the collection exists before it creates
  the index structure there: a \<open>Col_BPIndex\<close> call is only ever made at a moment when
  \<^verbatim>\<open>clientDB.Use(colName)\<close> is not nil.  When the first shard lacks the collection,
  \<^verbatim>\<open>Index\<close> returns the error \<^verbatim>\<open>Collection does not exist\<close> after the single call that
  opened shard 0: no index structure is created on any shard.
\<close>

theorem Index_checks_collection:
  "(0 < nProcs cl \<and> e_call env h (DB_Open 0) = None \<and> \<not> e_Use env (h @ [DB_Open 0]) 0 colName \<longrightarrow>
      Index env cl colName idxPath h = (Some (Err ''Collection does not exist''), h @ [DB_Open 0]))
   \<and> (\<forall>j i n p. length h \<le> j \<and> j < length (snd (Index env cl colName idxPath h)) \<and>
          snd (Index env cl colName idxPath h) ! j = Col_BPIndex i n p \<longrightarrow>
          e_Use env (take j (snd (Index env cl colName idxPath h))) i colName)"
proof (intro conjI impI allI)
  assume a: "0 < nProcs cl \<and> e_call env h (DB_Open 0) = None \<and> \<not> e_Use env (h @ [DB_Open 0]) 0 colName"
  then have "[0..<nat (nProcs cl)] = 0 # [1..<nat (nProcs cl)]"
    by (simp add: upt_conv_Cons)
  with a show "Index env cl colName idxPath h = (Some (Err ''Collection does not exist''), h @ [DB_Open 0])"
    by (simp add: Index_def reqMaintAccess_def)
next
  fix j i n p
  let ?H = "snd (Index env cl colName idxPath h)"
  assume b: "length h \<le> j \<and> j < length ?H \<and> ?H ! j = Col_BPIndex i n p"
  have e: "ext (guarded env colName) h ?H"
    by (rule ext_Index)
  from b have "guarded env colName (take j ?H) (?H ! j)"
    by (intro ext_nth [OF e]) auto
  with b show "e_Use env (take j ?H) i colName"
    by (simp add: guarded_def)
qed

theorem Index_checks_collection_witness:
  "Index env_absent (client_of 2) ''c'' [''a''] []
     = (Some (Err ''Collection does not exist''), [DB_Open 0])
   \<and> snd (Index env_reload_down (client_of 1) ''c'' [''a''] []) ! 1 = Col_BPIndex 0 ''c'' [''a'']
   \<and> e_Use env_reload_down (take 1 (snd (Index env_reload_down (client_of 1) ''c'' [''a''] []))) 0 ''c''"
proof -
  have a: "0 < nProcs (client_of 2) \<and> e_call env_absent [] (DB_Open 0) = None
      \<and> \<not> e_Use env_absent ([] @ [DB_Open 0]) 0 ''c''"
    by (simp add: env_absent_def env0_def client_of_def)
  have 1: "Index env_absent (client_of 2) ''c'' [''a''] [] = (Some (Err ''Collection does not exist''), [DB_Open 0])"
    using Index_checks_collection [where env = env_absent and cl = "client_of 2" and h = "[]"
        and colName = "''c''" and idxPath = "[''a'']", THEN conjunct1, rule_format, OF a]
    by simp
  have H: "snd (Index env_reload_down (client_of 1) ''c'' [''a''] [])
      = [DB_Open 0, Col_BPIndex 0 ''c'' [''a''], DB_Close 0, C_reloadServer]"
    by (simp add: Index_def reqMaintAccess_def Index_reindex_def env_reload_down_def env0_def client_of_def)
  have 2: "e_Use env_reload_down (take 1 (snd (Index env_reload_down (client_of 1) ''c'' [''a''] []))) 0 ''c''"
    using Index_checks_collection [where env = env_reload_down and cl = "client_of 1" and h = "[]"
        and colName = "''c''" and idxPath = "[''a'']", THEN conjunct2, rule_format, of 1 0 "''c''" "[''a'']"]
    by (simp add: H)
  from 1 2 H show ?thesis by simp
qed

subsection \<open>Uniform shard application\<close>

lemma all_ok_append: "all_ok env h (a @ b) = (all_ok env h a \<and> all_ok env (h @ a) b)"
  by (induction a arbitrary: h) auto

lemma doCalls_append:
  "doCalls env (a @ b) h =
     (case doCalls env a h of (Some e, h1) \<Rightarrow> (Some e, h1) | (None, h1) \<Rightarrow> doCalls env b h1)"
  by (induction a arbitrary: h) (auto split: option.splits)

lemma doCalls_None: "doCalls env cs h = (None, h') \<longleftrightarrow> all_ok env h cs \<and> h' = h @ cs"
  by (induction cs arbitrary: h) (auto split: option.splits)

lemma doCalls_Some:
  "doCalls env cs h = (Some e, h') \<longleftrightarrow>
     (\<exists>p c q. cs = p @ c # q \<and> all_ok env h p \<and> e_call env (h @ p) c = Some e \<and> h' = h @ p @ [c])"
proof (induction cs arbitrary: h)
  case Nil
  show ?case by simp
next
  case (Cons a cs)
  show ?case
  proof (cases "e_call env h a")
    case None
    have "(\<exists>p c q. a # cs = p @ c # q \<and> all_ok env h p \<and> e_call env (h @ p) c = Some e \<and> h' = h @ p @ [c])
      \<longleftrightarrow> (\<exists>p c q. cs = p @ c # q \<and> all_ok env (h @ [a]) p \<and> e_call env ((h @ [a]) @ p) c = Some e
            \<and> h' = (h @ [a]) @ p @ [c])" (is "?L \<longleftrightarrow> ?R")
    proof
      assume ?L
      then obtain p c q where *: "a # cs = p @ c # q" "all_ok env h p" "e_call env (h @ p) c = Some e"
        "h' = h @ p @ [c]" by blast
      with None obtain p' where "p = a # p'" by (cases p) auto
      with * show ?R by auto
    next
      assume ?R
      then obtain p c q where *: "cs = p @ c # q" "all_ok env (h @ [a]) p"
        "e_call env ((h @ [a]) @ p) c = Some e" "h' = (h @ [a]) @ p @ [c]" by blast
      with None have "a # cs = (a # p) @ c # q \<and> all_ok env h (a # p) \<and> e_call env (h @ (a # p)) c = Some e
        \<and> h' = h @ (a # p) @ [c]" by simp
      then show ?L by blast
    qed
    with None Cons.IH [of "h @ [a]"] show ?thesis by simp
  next
    case (Some e')
    have "(\<exists>p c q. a # cs = p @ c # q \<and> all_ok env h p \<and> e_call env (h @ p) c = Some e \<and> h' = h @ p @ [c])
      \<longleftrightarrow> (e' = e \<and> h' = h @ [a])" (is "?L \<longleftrightarrow> ?R")
    proof
      assume ?L
      then obtain p c q where *: "a # cs = p @ c # q" "all_ok env h p" "e_call env (h @ p) c = Some e"
        "h' = h @ p @ [c]" by blast
      with Some have "p = []" by (cases p) auto
      with * Some show ?R by auto
    next
      assume ?R
      with Some have "a # cs = [] @ a # cs \<and> all_ok env h [] \<and> e_call env (h @ []) a = Some e \<and> h' = h @ [] @ [a]"
        by simp
      then show ?L by blast
    qed
    with Some show ?thesis by auto
  qed
qed

lemma invoke_doCalls: "invoke env c = doCalls env [c]"
  by (rule ext) (simp split: option.splits)

lemma Scrub_recreate_doCalls:
  "Scrub_recreate env i tmpColName idxs h = doCalls env (map (Col_BPIndex i tmpColName) idxs) h"
  by (induction idxs arbitrary: h) (auto split: option.splits)

lemma Scrub_create_fun_doCalls:
  "Scrub_create_fun env tmpColName idxs =
     (\<lambda>i. doCalls env (DB_Create i tmpColName # map (Col_BPIndex i tmpColName) idxs))"
  by (intro ext) (simp add: Scrub_create_fun_def Scrub_recreate_doCalls split: option.splits)

lemma Scrub_swap_fun_doCalls:
  "Scrub_swap_fun env colName tmpColName =
     (\<lambda>i. doCalls env [DB_Drop i colName, DB_Rename i tmpColName colName])"
  by (intro ext) (simp add: Scrub_swap_fun_def split: option.splits)

lemma forAllDBsDo_loop_doCalls:
  "forAllDBsDo_loop env (\<lambda>i. doCalls env (acts i)) xs h =
     doCalls env (concat (map (\<lambda>i. DB_Open i # acts i @ [DB_Close i]) xs)) h"
proof (induction xs arbitrary: h)
  case Nil
  show ?case by simp
next
  case (Cons x xs)
  show ?case
    by (cases "doCalls env (acts x) (h @ [DB_Open x])")
       (auto simp: doCalls_append Cons.IH split: option.splits)
qed

lemma runOp_doCalls:
  "runOp env cl op h = doCalls env (concat (map (shardCalls op) [0..<nat (nProcs cl)])) h"
proof -
  have "runOp env cl op h = forAllDBsDo_loop env (\<lambda>i. doCalls env (opCalls op i)) [0..<nat (nProcs cl)] h"
    by (cases op)
       (simp_all add: Create_def Rename_def Truncate_def Scrub_create_def reqMaintAccess_def forAllDBsDo_def
          Scrub_create_fun_doCalls Scrub_swap_fun_doCalls invoke_doCalls del: invoke_def doCalls.simps)
  then show ?thesis
    by (simp add: forAllDBsDo_loop_doCalls shardCalls_def [abs_def])
qed


lemma concat_split:
  "concat (map B xs) = p @ c # q \<Longrightarrow>
   \<exists>ys k zs p' q'. xs = ys @ k # zs \<and> B k = p' @ c # q' \<and> p = concat (map B ys) @ p'"
proof (induction xs arbitrary: p)
  case Nil
  then show ?case by simp
next
  case (Cons x xs)
  then have "B x @ concat (map B xs) = p @ c # q" by simp
  then consider us where "B x = p @ us" "us @ concat (map B xs) = c # q"
    | us where "B x @ us = p" "concat (map B xs) = us @ c # q"
    by (auto simp: append_eq_append_conv2)
  then show ?case
  proof cases
    case 1
    show ?thesis
    proof (cases us)
      case Nil
      with 1 have "concat (map B xs) = [] @ c # q" by simp
      from Cons.IH [OF this] obtain ys k zs p' q' where
        "xs = ys @ k # zs" "B k = p' @ c # q'" "[] = concat (map B ys) @ p'" by blast
      with 1 Nil have "x # xs = (x # ys) @ k # zs \<and> B k = p' @ c # q' \<and> p = concat (map B (x # ys)) @ p'"
        by simp
      then show ?thesis by blast
    next
      case (Cons u us')
      with 1 have "x # xs = [] @ x # xs \<and> B x = p @ c # us' \<and> p = concat (map B []) @ p"
        by simp
      then show ?thesis by blast
    qed
  next
    case 2
    from Cons.IH [OF 2(2)] obtain ys k zs p' q' where
      "xs = ys @ k # zs" "B k = p' @ c # q'" "us = concat (map B ys) @ p'" by blast
    with 2 have "x # xs = (x # ys) @ k # zs \<and> B k = p' @ c # q' \<and> p = concat (map B (x # ys)) @ p'"
      by auto
    then show ?thesis by blast
  qed
qed

lemma upt_split:
  assumes "[0..<n] = ys @ k # zs"
  shows "ys = [0..<k] \<and> k < n"
proof -
  from assms have len: "length ys < n"
    by (metis length_upt length_append length_Cons add_Suc_right diff_zero less_add_Suc1)
  from assms have "[0..<n] ! length ys = k"
    by (metis nth_append_length)
  with len have k: "k = length ys" by simp
  from assms have "take (length ys) [0..<n] = ys" by (metis append_eq_conv_conj)
  with len k show ?thesis by simp
qed

text \<open>
  Claim C1, as amended.  A structural operation applied through \<open>forAllDBsDo\<close>
  (Create, Rename, Truncate, the creation and the swap of Scrub) with \<open>N\<close> shards makes
  its calls shard by shard in the order \<open>0, ..., N - 1\<close>: open, the calls of the action,
  close.  When it returns no error, every call of every shard was made and succeeded.
  When it returns the error \<open>e\<close>, there is a failing shard \<open>k < N\<close>: the shards before
  \<open>k\<close> were opened, changed and closed with success; on shard \<open>k\<close> the calls up to the
  failing call \<open>c\<close> were made, \<open>c\<close> is an open, a call of the action or a close and \<open>e\<close>
  is the error that \<open>c\<close> returned; no call was made after \<open>c\<close>, so the shards after
  \<open>k\<close> are untouched.  Shard \<open>k\<close> itself is changed already when it is its close that
  fails, and is left open when its action fails.
\<close>

theorem uniform_shard_application:
  assumes "runOp env cl op h = (r, h')"
  shows "(r = None \<longrightarrow>
            all_ok env h (concat (map (shardCalls op) [0..<nat (nProcs cl)])) \<and>
            h' = h @ concat (map (shardCalls op) [0..<nat (nProcs cl)]))
       \<and> (\<forall>e. r = Some e \<longrightarrow>
            (\<exists>k p c q. k < nat (nProcs cl) \<and> shardCalls op k = p @ c # q \<and>
               all_ok env h (concat (map (shardCalls op) [0..<k]) @ p) \<and>
               e_call env (h @ concat (map (shardCalls op) [0..<k]) @ p) c = Some e \<and>
               h' = h @ concat (map (shardCalls op) [0..<k]) @ p @ [c]))"
proof -
  have ok: "all_ok env h (concat (map (shardCalls op) [0..<nat (nProcs cl)])) \<and>
            h' = h @ concat (map (shardCalls op) [0..<nat (nProcs cl)])" if "r = None"
    using that assms by (simp add: runOp_doCalls doCalls_None)
  have failed: "\<exists>k p c q. k < nat (nProcs cl) \<and> shardCalls op k = p @ c # q \<and>
               all_ok env h (concat (map (shardCalls op) [0..<k]) @ p) \<and>
               e_call env (h @ concat (map (shardCalls op) [0..<k]) @ p) c = Some e \<and>
               h' = h @ concat (map (shardCalls op) [0..<k]) @ p @ [c]" if "r = Some e" for e
  proof -
  from that assms obtain p c q where
    *: "concat (map (shardCalls op) [0..<nat (nProcs cl)]) = p @ c # (q :: 'a call list)"
       "all_ok env h p" "e_call env (h @ p) c = Some e" "h' = h @ p @ [c]"
    by (auto simp: runOp_doCalls doCalls_Some)
  from concat_split [OF *(1)] obtain ys k zs p' q' where
    **: "[0..<nat (nProcs cl)] = ys @ k # zs" "shardCalls op k = p' @ c # (q' :: 'a call list)"
        "p = concat (map (shardCalls op) ys) @ p'" by blast
  from upt_split [OF **(1)] have "ys = [0..<k]" "k < nat (nProcs cl)" by simp_all
  with * ** have "k < nat (nProcs cl) \<and> shardCalls op k = p' @ c # q' \<and>
               all_ok env h (concat (map (shardCalls op) [0..<k]) @ p') \<and>
               e_call env (h @ concat (map (shardCalls op) [0..<k]) @ p') c = Some e \<and>
               h' = h @ concat (map (shardCalls op) [0..<k]) @ p' @ [c]"
    by simp
  then show ?thesis
    by blast
  qed
  from ok failed show ?thesis by blast
qed

theorem uniform_shard_application_witness:
  "runOp env_truncate_fails (client_of 5) (OpTruncate ''C'') [] =
     (Some (Err ''shard 2: disk''),
      [DB_Open 0, DB_Truncate 0 ''C'', DB_Close 0, DB_Open 1, DB_Truncate 1 ''C'', DB_Close 1,
       DB_Open 2, DB_Truncate 2 ''C''])
   \<and> (\<exists>k p c q. k < nat (nProcs (client_of 5)) \<and> shardCalls (OpTruncate ''C'') k = p @ c # q \<and>
         all_ok env_truncate_fails [] (concat (map (shardCalls (OpTruncate ''C'')) [0..<k]) @ p) \<and>
         e_call env_truncate_fails ([] @ concat (map (shardCalls (OpTruncate ''C'')) [0..<k]) @ p) c
           = Some (Err ''shard 2: disk'') \<and>
         [DB_Open 0, DB_Truncate 0 ''C'', DB_Close 0, DB_Open 1, DB_Truncate 1 ''C'', DB_Close 1,
          DB_Open 2, DB_Truncate 2 ''C'']
           = [] @ concat (map (shardCalls (OpTruncate ''C'')) [0..<k]) @ p @ [c])"
proof -
  have run: "runOp env_truncate_fails (client_of 5) (OpTruncate ''C'') [] =
     (Some (Err ''shard 2: disk''),
      [DB_Open 0, DB_Truncate 0 ''C'', DB_Close 0, DB_Open 1, DB_Truncate 1 ''C'', DB_Close 1,
       DB_Open 2, DB_Truncate 2 ''C''])"
    by (simp add: Truncate_def reqMaintAccess_def forAllDBsDo_def client_of_def
          env_truncate_fails_def env0_def upt_rec)
  from uniform_shard_application [OF run, THEN conjunct2, rule_format, OF refl] run
  show ?thesis by blast
qed

text \<open>
  The claim C1 as stated says that the shards at and after the failure point are
  untouched.  With five shards and a close that fails on shard 2, \<^verbatim>\<open>Truncate\<close> returns that
  error, and shard 2, the failing shard, has been truncated with success before.
\<close>

theorem failing_shard_changed_counterexample:
  "Truncate env_close_fails (client_of 5) ''C'' [] =
     (Some (Err ''shard 2: close''),
      [DB_Open 0, DB_Truncate 0 ''C'', DB_Close 0, DB_Open 1, DB_Truncate 1 ''C'', DB_Close 1,
       DB_Open 2, DB_Truncate 2 ''C'', DB_Close 2])
   \<and> e_call env_close_fails
        [DB_Open 0, DB_Truncate 0 ''C'', DB_Close 0, DB_Open 1, DB_Truncate 1 ''C'', DB_Close 1, DB_Open 2]
        (DB_Truncate 2 ''C'') = None
   \<and> e_call env_close_fails
        [DB_Open 0, DB_Truncate 0 ''C'', DB_Close 0, DB_Open 1, DB_Truncate 1 ''C'', DB_Close 1,
         DB_Open 2, DB_Truncate 2 ''C'']
        (DB_Close 2) = Some (Err ''shard 2: close'')"
  by (simp add: Truncate_def reqMaintAccess_def forAllDBsDo_def client_of_def
        env_close_fails_def env0_def upt_rec)

subsection \<open>Scrub\<close>

lemma new_calls_append [simp]: "new_calls h (h @ tr) = tr"
  by (simp add: new_calls_def)

lemma ext_new_calls: "ext Q h H \<Longrightarrow> H = h @ new_calls h H"
  by (auto simp: ext_def)

lemma ext_new_calls_snoc: "ext Q h H \<Longrightarrow> new_calls h (H @ tr) = new_calls h H @ tr"
  by (auto simp: ext_def)

lemma ext_set:
  assumes "ext Q h H" "c \<in> set (new_calls h H)"
  shows "\<exists>g. Q g c"
proof -
  have "every_new Q g tr \<Longrightarrow> c \<in> set tr \<Longrightarrow> \<exists>g. Q g c" for g tr
    by (induction tr arbitrary: g) auto
  with assms show ?thesis by (auto simp: ext_def)
qed

lemma shard_call_simps [simp]:
  "shard_call g (DB_Open i)"
  "shard_call g (DB_Close i)"
  "shard_call g (DB_Create i n)"
  "shard_call g (DB_Rename i n m)"
  "shard_call g (DB_Truncate i n)"
  "shard_call g (DB_Drop i n)"
  "shard_call g (Col_BPIndex i n p)"
  "shard_call g (Col_Unindex i n p)"
  by (auto simp: shard_call_def)

lemma ext_Index_shards_db:
  "Index_shards env colName idxPath xs h = (r, h') \<Longrightarrow> ext shard_call h0 h \<Longrightarrow> ext shard_call h0 h'"
proof (induction xs arbitrary: h)
  case Nil
  then show ?case by simp
next
  case (Cons i rest)
  note IH = Cons.IH
  from Cons.prems show ?case
    by (auto split: option.splits if_splits intro: IH intro!: ext_app)
qed

lemma ext_Scrub_docs:
  "Scrub_docs env tmpColID docs h = (r, h') \<Longrightarrow> ext client_call h0 h \<Longrightarrow> ext client_call h0 h'"
proof (induction docs arbitrary: h)
  case Nil
  then show ?case by simp
next
  case (Cons d docs)
  note IH = Cons.IH
  from Cons.prems show ?case
    by (cases d) (auto split: option.splits intro: IH intro!: ext_app)
qed

lemma ext_Scrub_pages:
  "Scrub_pages env colName tmpColID tot pages h = (r, h') \<Longrightarrow> ext client_call h0 h \<Longrightarrow>
   ext client_call h0 h'"
proof (induction pages arbitrary: h)
  case Nil
  then show ?case by simp
next
  case (Cons page pages)
  note IH = Cons.IH
  from Cons.prems show ?case
    by (fastforce split: sum.splits prod.splits option.splits intro: IH ext_Scrub_docs intro!: ext_app)
qed

lemma ext_Scrub_migrate:
  "Scrub_migrate env colName tmpColName h = (r, h') \<Longrightarrow> ext client_call h0 h \<Longrightarrow> ext client_call h0 h'"
  unfolding Scrub_migrate_def
  by (fastforce split: sum.splits prod.splits option.splits if_splits simp: Let_def
        intro: ext_Scrub_pages intro!: ext_app)

lemma client_calls_only:
  assumes "ext client_call h H"
  shows "\<forall>c\<in>set (new_calls h H). shard_of c = None"
  using ext_set [OF assms] by (auto simp: client_call_def)

lemma shard_calls_only:
  assumes "ext shard_call h H"
  shows "filter (\<lambda>c. shard_of c = None) (new_calls h H) = []"
  using ext_set [OF assms] by (auto simp: shard_call_def filter_empty_conv)

lemma shard_of_shardCalls: "c \<in> set (shardCalls op i) \<Longrightarrow> shard_of c = Some i"
  by (cases op) (auto simp: shardCalls_def)

lemma shardCalls_no_client:
  "filter (\<lambda>c. shard_of c = None) (concat (map (shardCalls op) xs)) = []"
  by (auto simp: filter_empty_conv dest: shard_of_shardCalls)

lemma Scrub_create_None:
  "Scrub_create env cl tmpColName idxs h = (None, h1) \<longleftrightarrow>
     all_ok env h (concat (map (shardCalls (OpScrubCreate tmpColName idxs)) [0..<nat (nProcs cl)])) \<and>
     h1 = h @ concat (map (shardCalls (OpScrubCreate tmpColName idxs)) [0..<nat (nProcs cl)])"
  using runOp_doCalls [of env cl "OpScrubCreate tmpColName idxs" h]
  by (simp add: doCalls_None)

lemma Scrub_swap_None:
  "forAllDBsDo env cl (Scrub_swap_fun env colName tmpColName) h = (None, h1) \<longleftrightarrow>
     all_ok env h (concat (map (shardCalls (OpScrubSwap colName tmpColName)) [0..<nat (nProcs cl)])) \<and>
     h1 = h @ concat (map (shardCalls (OpScrubSwap colName tmpColName)) [0..<nat (nProcs cl)])"
  using runOp_doCalls [of env cl "OpScrubSwap colName tmpColName" h]
  by (simp add: doCalls_None)

lemma tmpName_neq: "tmpName colName n \<noteq> colName"
proof
  assume "tmpName colName n = colName"
  then have "length (tmpName colName n) = length colName" by simp
  then show False by (simp add: tmpName_def)
qed

lemma Scrub_unfold:
  "map_of (colNameLookup (e_schema env h)) colName = Some colID \<Longrightarrow>
   Scrub env cl colName h =
     (case Scrub_create env cl (tmpName colName (e_UnixNano env h))
             (existingIndexesOf (e_schema env h) colID) h of
        (Some e, h1) \<Rightarrow> (Some e, h1)
      | (None, h1) \<Rightarrow>
          (case Scrub_migrate env colName (tmpName colName (e_UnixNano env h)) h1 of
             (Some e, h2) \<Rightarrow> (Some e, h2)
           | (None, h2) \<Rightarrow> Scrub_swap env cl colName (tmpName colName (e_UnixNano env h)) h2))"
  by (simp add: Scrub_def reqMaintAccess_def Let_def)

lemma Scrub_None:
  assumes "Scrub env cl colName h = (None, h')"
  shows "\<exists>colID h1 h2 h3. map_of (colNameLookup (e_schema env h)) colName = Some colID \<and>
     Scrub_create env cl (tmpName colName (e_UnixNano env h)) (existingIndexesOf (e_schema env h) colID) h
       = (None, h1) \<and>
     Scrub_migrate env colName (tmpName colName (e_UnixNano env h)) h1 = (None, h2) \<and>
     forAllDBsDo env cl (Scrub_swap_fun env colName (tmpName colName (e_UnixNano env h))) h2 = (None, h3) \<and>
     h' = h3 @ [C_reloadServer]"
proof -
  from assms obtain colID where c: "map_of (colNameLookup (e_schema env h)) colName = Some colID"
    by (cases "map_of (colNameLookup (e_schema env h)) colName")
       (auto simp: Scrub_def reqMaintAccess_def)
  from assms show ?thesis
    unfolding Scrub_unfold [OF c] Scrub_swap_def
    by (auto simp: c split: prod.splits option.splits)
qed

text \<open>
  Claim C3, as amended.  A run of \<^verbatim>\<open>Scrub\<close> that returns no error has made these calls,
  in this order: for each shard in turn (one uniform shard application), open, create
  the temporary collection \<^verbatim>\<open>scrub-<original>-<nanoseconds>\<close>, recreate every index path
  of the snapshot on it, close; then calls on the client only (reload, count, pages,
  recovery inserts); then for each shard in turn, open, drop the original, rename the
  temporary collection to the original name, close; then the reload.
\<close>

theorem Scrub_successful_run:
  assumes "Scrub env cl colName h = (None, h')"
  shows "\<exists>colID mid. map_of (colNameLookup (e_schema env h)) colName = Some colID \<and>
     (let tmpColName = ''scrub-'' @ colName @ ''-'' @ intDec (e_UnixNano env h);
          existingIndexes = existingIndexesOf (e_schema env h) colID
      in h' = h
           @ concat (map (\<lambda>i. DB_Open i # DB_Create i tmpColName
                              # map (Col_BPIndex i tmpColName) existingIndexes @ [DB_Close i])
                       [0..<nat (nProcs cl)])
           @ mid
           @ concat (map (\<lambda>i. [DB_Open i, DB_Drop i colName, DB_Rename i tmpColName colName, DB_Close i])
                       [0..<nat (nProcs cl)])
           @ [C_reloadServer]
         \<and> (\<forall>c\<in>set mid. shard_of c = None))"
proof -
  let ?tmp = "tmpName colName (e_UnixNano env h)"
  from Scrub_None [OF assms] obtain colID h1 h2 h3 where
    c: "map_of (colNameLookup (e_schema env h)) colName = Some colID"
    and 1: "Scrub_create env cl ?tmp (existingIndexesOf (e_schema env h) colID) h = (None, h1)"
    and 2: "Scrub_migrate env colName ?tmp h1 = (None, h2)"
    and 3: "forAllDBsDo env cl (Scrub_swap_fun env colName ?tmp) h2 = (None, h3)"
    and 4: "h' = h3 @ [C_reloadServer]"
    by blast
  from 2 have e: "ext client_call h1 h2"
    by (rule ext_Scrub_migrate) (rule ext_refl)
  from 1 have h1: "h1 = h @ concat (map (shardCalls (OpScrubCreate ?tmp (existingIndexesOf (e_schema env h) colID)))
       [0..<nat (nProcs cl)])"
    by (simp add: Scrub_create_None)
  from 3 have h3: "h3 = h2 @ concat (map (shardCalls (OpScrubSwap colName ?tmp)) [0..<nat (nProcs cl)])"
    by (simp add: Scrub_swap_None)
  from ext_new_calls [OF e] client_calls_only [OF e] h1 h3 4
  have "h' = h @ concat (map (shardCalls (OpScrubCreate ?tmp (existingIndexesOf (e_schema env h) colID)))
                 [0..<nat (nProcs cl)])
             @ new_calls h1 h2
             @ concat (map (shardCalls (OpScrubSwap colName ?tmp)) [0..<nat (nProcs cl)])
             @ [C_reloadServer]
         \<and> (\<forall>c\<in>set (new_calls h1 h2). shard_of c = None)"
    by simp
  with c show ?thesis
    by (intro exI [of _ colID] exI [of _ "new_calls h1 h2"])
       (simp add: Let_def shardCalls_def [abs_def] tmpName_def)
qed

lemma Scrub_env_c:
  "Scrub env_c (client_of 2) ''c'' [] =
     (None,
      [DB_Open 0, DB_Create 0 ''scrub-c-7'', Col_BPIndex 0 ''scrub-c-7'' [''a''], DB_Close 0,
       DB_Open 1, DB_Create 1 ''scrub-c-7'', Col_BPIndex 1 ''scrub-c-7'' [''a''], DB_Close 1,
       C_reloadServer, C_approxDocCount ''c'', C_getDocPage ''c'' 0 1 True,
       C_insertRecovery 2 11 100, C_insertRecovery 2 12 200,
       DB_Open 0, DB_Drop 0 ''c'', DB_Rename 0 ''scrub-c-7'' ''c'', DB_Close 0,
       DB_Open 1, DB_Drop 1 ''c'', DB_Rename 1 ''scrub-c-7'' ''c'', DB_Close 1,
       C_reloadServer])"
  by (simp add: Scrub_def reqMaintAccess_def Scrub_create_def Scrub_migrate_def Scrub_swap_def
        Scrub_create_fun_def Scrub_swap_fun_def forAllDBsDo_def existingIndexesOf_def pagesBelow_def
        tmpName_def intDec_def natDec.simps digit_def
        env_c_def schema_c_def env0_def client_of_def upt_rec Let_def)


theorem Scrub_successful_run_witness:
  "Scrub env_c (client_of 2) ''c'' [] =
     (None,
      [DB_Open 0, DB_Create 0 ''scrub-c-7'', Col_BPIndex 0 ''scrub-c-7'' [''a''], DB_Close 0,
       DB_Open 1, DB_Create 1 ''scrub-c-7'', Col_BPIndex 1 ''scrub-c-7'' [''a''], DB_Close 1,
       C_reloadServer, C_approxDocCount ''c'', C_getDocPage ''c'' 0 1 True,
       C_insertRecovery 2 11 100, C_insertRecovery 2 12 200,
       DB_Open 0, DB_Drop 0 ''c'', DB_Rename 0 ''scrub-c-7'' ''c'', DB_Close 0,
       DB_Open 1, DB_Drop 1 ''c'', DB_Rename 1 ''scrub-c-7'' ''c'', DB_Close 1,
       C_reloadServer])
   \<and> (\<exists>colID mid. map_of (colNameLookup (e_schema env_c [])) ''c'' = Some colID \<and>
     (let tmpColName = ''scrub-'' @ ''c'' @ ''-'' @ intDec (e_UnixNano env_c []);
          existingIndexes = existingIndexesOf (e_schema env_c []) colID
      in [DB_Open 0 :: nat call, DB_Create 0 ''scrub-c-7'', Col_BPIndex 0 ''scrub-c-7'' [''a''], DB_Close 0,
       DB_Open 1, DB_Create 1 ''scrub-c-7'', Col_BPIndex 1 ''scrub-c-7'' [''a''], DB_Close 1,
       C_reloadServer, C_approxDocCount ''c'', C_getDocPage ''c'' 0 1 True,
       C_insertRecovery 2 11 100, C_insertRecovery 2 12 200,
       DB_Open 0, DB_Drop 0 ''c'', DB_Rename 0 ''scrub-c-7'' ''c'', DB_Close 0,
       DB_Open 1, DB_Drop 1 ''c'', DB_Rename 1 ''scrub-c-7'' ''c'', DB_Close 1,
       C_reloadServer] = []
           @ concat (map (\<lambda>i. DB_Open i # DB_Create i tmpColName
                              # map (Col_BPIndex i tmpColName) existingIndexes @ [DB_Close i])
                       [0..<nat (nProcs (client_of 2))])
           @ mid
           @ concat (map (\<lambda>i. [DB_Open i, DB_Drop i ''c'', DB_Rename i tmpColName ''c'', DB_Close i])
                       [0..<nat (nProcs (client_of 2))])
           @ [C_reloadServer]
         \<and> (\<forall>c\<in>set mid. shard_of c = None)))"
  by (rule conjI [OF Scrub_env_c Scrub_successful_run [OF Scrub_env_c]])

text \<open>
  The claim C3 as stated has every index creation uniformly applied on its own, after
  the temporary collection exists on every shard (\<open>spec_create_phase\<close>).  The code
  creates the collection and its indexes on shard 0 before it opens shard 1.
\<close>

theorem Scrub_create_counterexample:
  "Scrub_create env_c (client_of 2) ''scrub-c-7'' [[''a'']] [] =
     (None,
      [DB_Open 0, DB_Create 0 ''scrub-c-7'', Col_BPIndex 0 ''scrub-c-7'' [''a''], DB_Close 0,
       DB_Open 1, DB_Create 1 ''scrub-c-7'', Col_BPIndex 1 ''scrub-c-7'' [''a''], DB_Close 1])
   \<and> spec_create_phase env_c (client_of 2) ''scrub-c-7'' [[''a'']] [] =
     (None,
      [DB_Open 0, DB_Create 0 ''scrub-c-7'', DB_Close 0, DB_Open 1, DB_Create 1 ''scrub-c-7'', DB_Close 1,
       DB_Open 0, Col_BPIndex 0 ''scrub-c-7'' [''a''], DB_Close 0,
       DB_Open 1, Col_BPIndex 1 ''scrub-c-7'' [''a''], DB_Close 1])
   \<and> Scrub_create env_c (client_of 2) ''scrub-c-7'' [[''a'']] []
       \<noteq> spec_create_phase env_c (client_of 2) ''scrub-c-7'' [[''a'']] []"
  by (simp add: Scrub_create_def spec_create_phase_def Scrub_create_fun_def forAllDBsDo_def
        env_c_def env0_def client_of_def upt_rec)

text \<open>
  Claim C7.  When the lookup that follows the reload finds no routing identity for
  (collection, path), \<^verbatim>\<open>Index\<close> returns the error \<^verbatim>\<open>New hash table is missing?!\<close>; when
  it finds no id for the temporary collection, \<^verbatim>\<open>Scrub\<close> returns the error
  \<^verbatim>\<open>TmpCol went missing?!\<close>.  In both cases the reload is the last call made and the only
  call made on the client: no put command, no recovery insert, no second reload; and
  \<^verbatim>\<open>Scrub\<close> has made no drop and no rename.
\<close>

theorem reload_consistency_failures:
  "(Index_shards env colName idxPath [0..<nat (nProcs cl)] h = (None, h1) \<and>
    e_call env h1 C_reloadServer = None \<and>
    e_GetHTIDByPath env (e_schema env (h1 @ [C_reloadServer])) colName idxPath = - 1 \<longrightarrow>
      Index env cl colName idxPath h = (Some (Err ''New hash table is missing?!''), h1 @ [C_reloadServer]) \<and>
      filter (\<lambda>c. shard_of c = None) (new_calls h (h1 @ [C_reloadServer])) = [C_reloadServer])
   \<and> (map_of (colNameLookup (e_schema env h)) colName = Some colID \<and>
      Scrub_create env cl (tmpName colName (e_UnixNano env h))
        (existingIndexesOf (e_schema env h) colID) h = (None, h1) \<and>
      e_call env h1 C_reloadServer = None \<and>
      map_of (colNameLookup (e_schema env (h1 @ [C_reloadServer]))) (tmpName colName (e_UnixNano env h)) = None \<longrightarrow>
        Scrub env cl colName h = (Some (Err ''TmpCol went missing?!''), h1 @ [C_reloadServer]) \<and>
        filter (\<lambda>c. shard_of c = None) (new_calls h (h1 @ [C_reloadServer])) = [C_reloadServer] \<and>
        (\<forall>c\<in>set (new_calls h (h1 @ [C_reloadServer])). \<forall>i a b. c \<noteq> DB_Drop i a \<and> c \<noteq> DB_Rename i a b))"
proof (rule conjI; rule impI; elim conjE)
  assume a: "Index_shards env colName idxPath [0..<nat (nProcs cl)] h = (None, h1)"
    "e_call env h1 C_reloadServer = None"
    "e_GetHTIDByPath env (e_schema env (h1 @ [C_reloadServer])) colName idxPath = - 1"
  from a(1) have e: "ext shard_call h h1"
    by (rule ext_Index_shards_db) (rule ext_refl)
  from a have "Index env cl colName idxPath h = (Some (Err ''New hash table is missing?!''), h1 @ [C_reloadServer])"
    by (simp add: Index_def reqMaintAccess_def Index_reindex_def)
  moreover from e have "filter (\<lambda>c. shard_of c = None) (new_calls h (h1 @ [C_reloadServer])) = [C_reloadServer]"
    by (simp add: ext_new_calls_snoc [OF e] shard_calls_only [OF e])
  ultimately show "Index env cl colName idxPath h = (Some (Err ''New hash table is missing?!''), h1 @ [C_reloadServer]) \<and>
      filter (\<lambda>c. shard_of c = None) (new_calls h (h1 @ [C_reloadServer])) = [C_reloadServer]"
    by simp
next
  let ?tmp = "tmpName colName (e_UnixNano env h)"
  let ?idxs = "existingIndexesOf (e_schema env h) colID"
  assume a: "map_of (colNameLookup (e_schema env h)) colName = Some colID"
    "Scrub_create env cl ?tmp ?idxs h = (None, h1)"
    "e_call env h1 C_reloadServer = None"
    "map_of (colNameLookup (e_schema env (h1 @ [C_reloadServer]))) ?tmp = None"
  from a(2) have h1: "h1 = h @ concat (map (shardCalls (OpScrubCreate ?tmp ?idxs)) [0..<nat (nProcs cl)])"
    by (simp add: Scrub_create_None)
  have 1: "Scrub env cl colName h = (Some (Err ''TmpCol went missing?!''), h1 @ [C_reloadServer])"
    using a by (simp add: Scrub_unfold [OF a(1)] Scrub_migrate_def)
  have 2: "filter (\<lambda>c. shard_of c = None) (new_calls h (h1 @ [C_reloadServer])) = [C_reloadServer]"
    by (simp add: h1 shardCalls_no_client)
  have 3: "\<forall>c\<in>set (new_calls h (h1 @ [C_reloadServer])). \<forall>i a b. c \<noteq> DB_Drop i a \<and> c \<noteq> DB_Rename i a b"
    by (auto simp: h1 shardCalls_def)
  from 1 2 3 show "Scrub env cl colName h = (Some (Err ''TmpCol went missing?!''), h1 @ [C_reloadServer]) \<and>
        filter (\<lambda>c. shard_of c = None) (new_calls h (h1 @ [C_reloadServer])) = [C_reloadServer] \<and>
        (\<forall>c\<in>set (new_calls h (h1 @ [C_reloadServer])). \<forall>i a b. c \<noteq> DB_Drop i a \<and> c \<noteq> DB_Rename i a b)"
    by blast
qed


theorem reload_consistency_failures_witness:
  "Index env_c_lost (client_of 2) ''c'' [''a''] [] =
     (Some (Err ''New hash table is missing?!''),
      [DB_Open 0, Col_BPIndex 0 ''c'' [''a''], DB_Close 0,
        DB_Open 1, Col_BPIndex 1 ''c'' [''a''], DB_Close 1,
        C_reloadServer])
   \<and> filter (\<lambda>c. shard_of c = None) (new_calls []
       ([DB_Open 0, Col_BPIndex 0 ''c'' [''a''], DB_Close 0,
        DB_Open 1, Col_BPIndex 1 ''c'' [''a''], DB_Close 1,
        C_reloadServer] :: nat call list)) = [C_reloadServer]
   \<and> Scrub env_c_lost (client_of 2) ''c'' [] =
     (Some (Err ''TmpCol went missing?!''),
      [DB_Open 0, DB_Create 0 ''scrub-c-7'', Col_BPIndex 0 ''scrub-c-7'' [''a''], DB_Close 0,
        DB_Open 1, DB_Create 1 ''scrub-c-7'', Col_BPIndex 1 ''scrub-c-7'' [''a''], DB_Close 1,
        C_reloadServer])"
proof -
  have i: "Index_shards env_c_lost ''c'' [''a''] [0..<nat (nProcs (client_of 2))] [] =
      (None, [DB_Open 0, Col_BPIndex 0 ''c'' [''a''], DB_Close 0,
        DB_Open 1, Col_BPIndex 1 ''c'' [''a''], DB_Close 1]) \<and>
    e_call env_c_lost [DB_Open 0, Col_BPIndex 0 ''c'' [''a''], DB_Close 0,
        DB_Open 1, Col_BPIndex 1 ''c'' [''a''], DB_Close 1] C_reloadServer = None \<and>
    e_GetHTIDByPath env_c_lost (e_schema env_c_lost ([DB_Open 0, Col_BPIndex 0 ''c'' [''a''], DB_Close 0,
        DB_Open 1, Col_BPIndex 1 ''c'' [''a''], DB_Close 1] @ [C_reloadServer])) ''c'' [''a''] = - 1"
    by (simp add: Scrub_def reqMaintAccess_def Scrub_create_def Scrub_migrate_def Scrub_swap_def
        Scrub_create_fun_def Scrub_swap_fun_def forAllDBsDo_def existingIndexesOf_def pagesBelow_def
        tmpName_def intDec_def natDec.simps digit_def Index_def Index_reindex_def
        env_c_lost_def env_c_insert_fails_def env_c_def schema_c_def env0_def client_of_def upt_rec Let_def)
  have s: "map_of (colNameLookup (e_schema env_c_lost [])) ''c'' = Some 1 \<and>
    Scrub_create env_c_lost (client_of 2) (tmpName ''c'' (e_UnixNano env_c_lost []))
        (existingIndexesOf (e_schema env_c_lost []) 1) [] =
      (None, [DB_Open 0, DB_Create 0 ''scrub-c-7'', Col_BPIndex 0 ''scrub-c-7'' [''a''], DB_Close 0,
        DB_Open 1, DB_Create 1 ''scrub-c-7'', Col_BPIndex 1 ''scrub-c-7'' [''a''], DB_Close 1]) \<and>
    e_call env_c_lost [DB_Open 0, DB_Create 0 ''scrub-c-7'', Col_BPIndex 0 ''scrub-c-7'' [''a''], DB_Close 0,
        DB_Open 1, DB_Create 1 ''scrub-c-7'', Col_BPIndex 1 ''scrub-c-7'' [''a''], DB_Close 1] C_reloadServer = None \<and>
    map_of (colNameLookup (e_schema env_c_lost ([DB_Open 0, DB_Create 0 ''scrub-c-7'', Col_BPIndex 0 ''scrub-c-7'' [''a''], DB_Close 0,
        DB_Open 1, DB_Create 1 ''scrub-c-7'', Col_BPIndex 1 ''scrub-c-7'' [''a''], DB_Close 1] @ [C_reloadServer])))
      (tmpName ''c'' (e_UnixNano env_c_lost [])) = None"
    by (simp add: Scrub_def reqMaintAccess_def Scrub_create_def Scrub_migrate_def Scrub_swap_def
        Scrub_create_fun_def Scrub_swap_fun_def forAllDBsDo_def existingIndexesOf_def pagesBelow_def
        tmpName_def intDec_def natDec.simps digit_def Index_def Index_reindex_def
        env_c_lost_def env_c_insert_fails_def env_c_def schema_c_def env0_def client_of_def upt_rec Let_def)
  from reload_consistency_failures [THEN conjunct1, rule_format, OF i]
       reload_consistency_failures [THEN conjunct2, rule_format, OF s]
  show ?thesis by simp
qed

text \<open>
  Claim C9.  When \<^verbatim>\<open>Scrub\<close> has created the temporary collection and its indexes on
  every shard and then fails before the swap (in the reload, the count, a page or a
  recovery insert), it returns that error at once.  The calls it has made on shard
  stores are the calls of the creation and no other, each with success: they name the
  temporary collection, which is not the original, so no shard store was asked to
  drop, rename or change the original, and none was asked to drop the temporary
  collection.  Every other call was made on the client.
\<close>

theorem Scrub_fails_before_swap:
  assumes "map_of (colNameLookup (e_schema env h)) colName = Some colID"
    and "Scrub_create env cl (tmpName colName (e_UnixNano env h))
           (existingIndexesOf (e_schema env h) colID) h = (None, h1)"
    and "Scrub_migrate env colName (tmpName colName (e_UnixNano env h)) h1 = (Some e, h2)"
  shows "Scrub env cl colName h = (Some e, h2) \<and>
    (let tmpColName = tmpName colName (e_UnixNano env h);
         existingIndexes = existingIndexesOf (e_schema env h) colID;
         created = concat (map (\<lambda>i. DB_Open i # DB_Create i tmpColName
                                    # map (Col_BPIndex i tmpColName) existingIndexes @ [DB_Close i])
                             [0..<nat (nProcs cl)])
     in tmpColName \<noteq> colName \<and> all_ok env h created \<and>
        (\<exists>mid. h2 = h @ created @ mid \<and> (\<forall>c\<in>set mid. shard_of c = None)))"
proof -
  let ?tmp = "tmpName colName (e_UnixNano env h)"
  let ?idxs = "existingIndexesOf (e_schema env h) colID"
  let ?created = "concat (map (shardCalls (OpScrubCreate ?tmp ?idxs)) [0..<nat (nProcs cl)]) :: 'a call list"
  from assms have 1: "Scrub env cl colName h = (Some e, h2)"
    by (simp add: Scrub_unfold [OF assms(1)])
  from assms(2) have c: "all_ok env h ?created" "h1 = h @ ?created"
    by (simp_all add: Scrub_create_None)
  from assms(3) have e: "ext client_call h1 h2"
    by (rule ext_Scrub_migrate) (rule ext_refl)
  from ext_new_calls [OF e] client_calls_only [OF e] c(2)
  have "h2 = h @ ?created @ new_calls h1 h2 \<and> (\<forall>c\<in>set (new_calls h1 h2). shard_of c = None)"
    by simp
  then have "\<exists>mid. h2 = h @ ?created @ mid \<and> (\<forall>c\<in>set mid. shard_of c = None)"
    by blast
  with 1 c(1) tmpName_neq [of colName "e_UnixNano env h"] show ?thesis
    by (simp add: Let_def shardCalls_def [abs_def])
qed

theorem Scrub_fails_before_swap_witness:
  "Scrub env_c_insert_fails (client_of 2) ''c'' [] =
     (Some (Err ''insert''),
      [DB_Open 0, DB_Create 0 ''scrub-c-7'', Col_BPIndex 0 ''scrub-c-7'' [''a''], DB_Close 0,
        DB_Open 1, DB_Create 1 ''scrub-c-7'', Col_BPIndex 1 ''scrub-c-7'' [''a''], DB_Close 1,
        C_reloadServer, C_approxDocCount ''c'', C_getDocPage ''c'' 0 1 True,
        C_insertRecovery 2 11 100, C_insertRecovery 2 12 200])
   \<and> tmpName ''c'' (e_UnixNano env_c_insert_fails []) \<noteq> ''c''
   \<and> all_ok env_c_insert_fails [] [DB_Open 0, DB_Create 0 ''scrub-c-7'', Col_BPIndex 0 ''scrub-c-7'' [''a''], DB_Close 0,
        DB_Open 1, DB_Create 1 ''scrub-c-7'', Col_BPIndex 1 ''scrub-c-7'' [''a''], DB_Close 1]"
proof -
  have a: "map_of (colNameLookup (e_schema env_c_insert_fails [])) ''c'' = Some 1"
    by (simp add: Scrub_def reqMaintAccess_def Scrub_create_def Scrub_migrate_def Scrub_swap_def
        Scrub_create_fun_def Scrub_swap_fun_def forAllDBsDo_def existingIndexesOf_def pagesBelow_def
        tmpName_def intDec_def natDec.simps digit_def Index_def Index_reindex_def
        env_c_lost_def env_c_insert_fails_def env_c_def schema_c_def env0_def client_of_def upt_rec Let_def)
  have b: "Scrub_create env_c_insert_fails (client_of 2) (tmpName ''c'' (e_UnixNano env_c_insert_fails []))
        (existingIndexesOf (e_schema env_c_insert_fails []) 1) [] =
      (None, [DB_Open 0, DB_Create 0 ''scrub-c-7'', Col_BPIndex 0 ''scrub-c-7'' [''a''], DB_Close 0,
        DB_Open 1, DB_Create 1 ''scrub-c-7'', Col_BPIndex 1 ''scrub-c-7'' [''a''], DB_Close 1])"
    by (simp add: Scrub_def reqMaintAccess_def Scrub_create_def Scrub_migrate_def Scrub_swap_def
        Scrub_create_fun_def Scrub_swap_fun_def forAllDBsDo_def existingIndexesOf_def pagesBelow_def
        tmpName_def intDec_def natDec.simps digit_def Index_def Index_reindex_def
        env_c_lost_def env_c_insert_fails_def env_c_def schema_c_def env0_def client_of_def upt_rec Let_def)
  have c: "Scrub_migrate env_c_insert_fails ''c'' (tmpName ''c'' (e_UnixNano env_c_insert_fails []))
        [DB_Open 0, DB_Create 0 ''scrub-c-7'', Col_BPIndex 0 ''scrub-c-7'' [''a''], DB_Close 0,
        DB_Open 1, DB_Create 1 ''scrub-c-7'', Col_BPIndex 1 ''scrub-c-7'' [''a''], DB_Close 1] =
      (Some (Err ''insert''),
       [DB_Open 0, DB_Create 0 ''scrub-c-7'', Col_BPIndex 0 ''scrub-c-7'' [''a''], DB_Close 0,
        DB_Open 1, DB_Create 1 ''scrub-c-7'', Col_BPIndex 1 ''scrub-c-7'' [''a''], DB_Close 1,
        C_reloadServer, C_approxDocCount ''c'', C_getDocPage ''c'' 0 1 True,
        C_insertRecovery 2 11 100, C_insertRecovery 2 12 200])"
    by (simp add: Scrub_def reqMaintAccess_def Scrub_create_def Scrub_migrate_def Scrub_swap_def
        Scrub_create_fun_def Scrub_swap_fun_def forAllDBsDo_def existingIndexesOf_def pagesBelow_def
        tmpName_def intDec_def natDec.simps digit_def Index_def Index_reindex_def
        env_c_lost_def env_c_insert_fails_def env_c_def schema_c_def env0_def client_of_def upt_rec Let_def)
  have d: "existingIndexesOf (e_schema env_c_insert_fails []) 1 = [[''a'']]"
     "tmpName ''c'' (e_UnixNano env_c_insert_fails []) = ''scrub-c-7''"
     "nProcs (client_of 2) = 2"
    by (simp_all add: Scrub_def reqMaintAccess_def Scrub_create_def Scrub_migrate_def Scrub_swap_def
        Scrub_create_fun_def Scrub_swap_fun_def forAllDBsDo_def existingIndexesOf_def pagesBelow_def
        tmpName_def intDec_def natDec.simps digit_def Index_def Index_reindex_def
        env_c_lost_def env_c_insert_fails_def env_c_def schema_c_def env0_def client_of_def upt_rec Let_def)
  from Scrub_fails_before_swap [OF a b c] show ?thesis
    by (simp add: Let_def d upt_rec)
qed

subsection \<open>Unindex\<close>

lemma Unindex_shards_doCalls:
  "Unindex_shards env colName idxPath xs h = doCalls env (unindexTrace env colName idxPath xs h) h"
  by (induction xs arbitrary: h) (auto split: option.splits)

lemma opened_append: "opened (a @ b) = opened a @ opened b"
  by (induction a rule: opened.induct) auto

lemma closed_append: "closed (a @ b) = closed a @ closed b"
  by (induction a rule: closed.induct) auto

lemma opened_unindexTrace: "opened (unindexTrace env colName idxPath xs h) = xs"
  by (induction xs arbitrary: h) auto

lemma unindexTrace_shard_calls: "c \<in> set (unindexTrace env colName idxPath xs h) \<Longrightarrow> shard_of c \<noteq> None"
  by (induction xs arbitrary: h) (auto split: if_splits)

lemma doCalls_prefix: "\<exists>p. snd (doCalls env cs h) = h @ p \<and> set p \<subseteq> set cs"
proof (induction cs arbitrary: h)
  case Nil
  show ?case by simp
next
  case (Cons c cs)
  from Cons.IH [of "h @ [c]"] obtain p where
    "snd (doCalls env cs (h @ [c])) = h @ c # p" "set p \<subseteq> set cs" by auto
  then have "snd (doCalls env cs (h @ [c])) = h @ (c # p) \<and> set (c # p) \<subseteq> set (c # cs)"
    by auto
  then have 1: "\<exists>p. snd (doCalls env cs (h @ [c])) = h @ p \<and> set p \<subseteq> set (c # cs)"
    by blast
  have 2: "\<exists>p. h @ [c] = h @ p \<and> set p \<subseteq> set (c # cs)"
    by (rule exI [of _ "[c]"]) simp
  from 1 2 show ?case by (simp split: option.splits)
qed

lemma unindexTrace_static:
  assumes "\<And>g i. e_Use env g i colName = present i"
  shows "unindexTrace env colName idxPath xs h =
     concat (map (\<lambda>i. if present i then [DB_Open i, Col_Unindex i colName idxPath, DB_Close i]
                       else [DB_Open i]) xs)"
  by (induction xs arbitrary: h) (simp_all add: assms)

lemma all_ok_static: "(\<And>g c. e_call env g c = None) \<Longrightarrow> all_ok env h tr"
  by (induction tr arbitrary: h) auto

lemma closed_static:
  "closed (concat (map (\<lambda>i. if present i then [DB_Open i, Col_Unindex i colName idxPath, DB_Close i]
                       else [DB_Open i]) xs)) = filter present xs"
  by (induction xs) auto

lemma opened_static:
  "opened (concat (map (\<lambda>i. if present i then [DB_Open i, Col_Unindex i colName idxPath, DB_Close i]
                       else [DB_Open i]) xs)) = xs"
  by (induction xs) auto


lemma fst_doCalls_None: "fst (doCalls env cs h) = None \<longleftrightarrow> all_ok env h cs"
  by (induction cs arbitrary: h) (auto split: option.splits)

lemma Unindex_doCalls:
  "Unindex env cl colName idxPath h =
     doCalls env (unindexTrace env colName idxPath [0..<nat (nProcs cl)] h) h"
  by (simp add: Unindex_def reqMaintAccess_def Unindex_shards_doCalls)

lemma ext_set_moment:
  assumes "ext Q h H" "c \<in> set (new_calls h H)"
  shows "\<exists>g. Q g c \<and> set (new_calls h g) \<subseteq> set (new_calls h H)"
proof -
  from assms(1) obtain tr where tr: "H = h @ tr" "every_new Q h tr"
    by (auto simp: ext_def)
  with assms(2) obtain j where j: "j < length tr" "tr ! j = c"
    by (auto simp: in_set_conv_nth)
  from every_new_nth [OF tr(2) j(1)] j(2) have "Q (h @ take j tr) c" by simp
  moreover have "set (new_calls h (h @ take j tr)) \<subseteq> set (new_calls h H)"
    using tr(1) by (auto dest: in_set_takeD)
  ultimately show ?thesis by blast
qed

lemma close_follows_unindex_simps [simp]:
  "close_follows_unindex h0 colName idxPath g (DB_Open i)"
  "close_follows_unindex h0 colName idxPath g (Col_Unindex i n p)"
  by (auto simp: close_follows_unindex_def)

lemma close_follows_unindex_Close:
  "ext Q h0 h \<Longrightarrow>
   close_follows_unindex h0 colName idxPath (h @ [DB_Open i, Col_Unindex i colName idxPath]) (DB_Close i)"
  by (auto simp: ext_def close_follows_unindex_def)

lemma ext_Unindex_shards:
  "Unindex_shards env colName idxPath xs h = (r, h') \<Longrightarrow>
   ext (close_follows_unindex h0 colName idxPath) h0 h \<Longrightarrow>
   ext (close_follows_unindex h0 colName idxPath) h0 h'"
proof (induction xs arbitrary: h)
  case Nil
  then show ?case by simp
next
  case (Cons i rest)
  note IH = Cons.IH
  from Cons.prems show ?case
    by (auto split: option.splits if_splits intro: IH intro!: ext_app close_follows_unindex_Close)
qed

text \<open>
  Claim C5.  \<^verbatim>\<open>Unindex\<close> makes the calls of \<open>unindexTrace\<close> in order, up to the first
  call that returns an error: it opens every shard in index order; on a shard where the
  collection is absent it makes no further call and goes on to the next shard; on a
  shard where the collection is present it removes the index structure and closes the
  shard.  It returns no error exactly when every call returned none, so a missing
  collection never aborts it.  It makes no reload.
\<close>

theorem Unindex_skips_absent_shards:
  "Unindex env cl colName idxPath h =
     doCalls env (unindexTrace env colName idxPath [0..<nat (nProcs cl)] h) h
   \<and> opened (unindexTrace env colName idxPath [0..<nat (nProcs cl)] h) = [0..<nat (nProcs cl)]
   \<and> (fst (Unindex env cl colName idxPath h) = None) =
       all_ok env h (unindexTrace env colName idxPath [0..<nat (nProcs cl)] h)
   \<and> C_reloadServer \<notin> set (new_calls h (snd (Unindex env cl colName idxPath h)))"
proof -
  let ?tr = "unindexTrace env colName idxPath [0..<nat (nProcs cl)] h"
  obtain p where p: "snd (doCalls env ?tr h) = h @ p" "set p \<subseteq> set ?tr"
    using doCalls_prefix [of env ?tr h] by blast
  have "C_reloadServer \<notin> set ?tr"
    using unindexTrace_shard_calls [of C_reloadServer env colName idxPath "[0..<nat (nProcs cl)]" h]
    by auto
  with p have "C_reloadServer \<notin> set (new_calls h (snd (Unindex env cl colName idxPath h)))"
    by (auto simp: Unindex_doCalls)
  then show ?thesis
    by (simp add: Unindex_doCalls fst_doCalls_None opened_unindexTrace)
qed

theorem Unindex_skips_absent_shards_witness:
  "Unindex env_half (client_of 3) ''c'' [''a''] [] =
     (None, [DB_Open 0, DB_Open 1, Col_Unindex 1 ''c'' [''a''], DB_Close 1, DB_Open 2])"
proof -
  have "unindexTrace env_half ''c'' [''a''] [0..<nat (nProcs (client_of 3))] [] =
      [DB_Open 0, DB_Open 1, Col_Unindex 1 ''c'' [''a''], DB_Close 1, DB_Open 2]"
    by (simp add: env_half_def env0_def client_of_def upt_rec)
  with Unindex_skips_absent_shards [of env_half "client_of 3" "''c''" "[''a'']" "[]", THEN conjunct1]
  show ?thesis
    by (simp add: env_half_def env0_def)
qed

text \<open>
  Claim C10.  \<^verbatim>\<open>Unindex\<close> closes a shard only after it has removed the index there:
  every \<open>DB_Close i\<close> that it makes comes after its \<open>Col_Unindex i\<close>.  On a run where no
  call fails and the collection is present on the shards \<open>present\<close>, every shard is
  opened and only the shards with the collection are closed: the handles of the shards
  without it are still open when \<^verbatim>\<open>Unindex\<close> returns.
\<close>

theorem Unindex_leaves_skipped_shards_open:
  "(\<forall>i. DB_Close i \<in> set (new_calls h (snd (Unindex env cl colName idxPath h))) \<longrightarrow>
         Col_Unindex i colName idxPath \<in> set (new_calls h (snd (Unindex env cl colName idxPath h))))
   \<and> ((\<forall>g i. e_Use env g i colName = present i) \<and> (\<forall>g c. e_call env g c = None) \<longrightarrow>
        fst (Unindex env cl colName idxPath h) = None \<and>
        opened (new_calls h (snd (Unindex env cl colName idxPath h))) = [0..<nat (nProcs cl)] \<and>
        closed (new_calls h (snd (Unindex env cl colName idxPath h))) = filter present [0..<nat (nProcs cl)])"
proof -
  let ?H = "snd (Unindex env cl colName idxPath h)"
  have e: "ext (close_follows_unindex h colName idxPath) h ?H"
    by (cases "Unindex_shards env colName idxPath [0..<nat (nProcs cl)] h")
       (auto simp: Unindex_def reqMaintAccess_def intro: ext_Unindex_shards ext_refl)
  have a: "Col_Unindex i colName idxPath \<in> set (new_calls h ?H)" if "DB_Close i \<in> set (new_calls h ?H)" for i
    using ext_set_moment [OF e that] by (auto simp: close_follows_unindex_def)
  have b: "fst (Unindex env cl colName idxPath h) = None \<and>
        opened (new_calls h ?H) = [0..<nat (nProcs cl)] \<and>
        closed (new_calls h ?H) = filter present [0..<nat (nProcs cl)]"
    if s: "(\<forall>g i. e_Use env g i colName = present i) \<and> (\<forall>g c. e_call env g c = None)"
  proof -
    let ?tr = "concat (map (\<lambda>i. if present i then [DB_Open i, Col_Unindex i colName idxPath, DB_Close i]
                       else [DB_Open i]) [0..<nat (nProcs cl)]) :: 'a call list"
    from s have t: "unindexTrace env colName idxPath [0..<nat (nProcs cl)] h = ?tr"
      by (intro unindexTrace_static) simp
    from s have "all_ok env h ?tr"
      by (intro all_ok_static) simp
    then have "Unindex env cl colName idxPath h = (None, h @ ?tr)"
      by (simp add: Unindex_doCalls t doCalls_None)
    then show ?thesis
      by (simp add: closed_static opened_static)
  qed
  from a b show ?thesis by blast
qed

theorem Unindex_leaves_skipped_shards_open_witness:
  "Unindex env_half (client_of 3) ''c'' [''a''] [] =
     (None, [DB_Open 0, DB_Open 1, Col_Unindex 1 ''c'' [''a''], DB_Close 1, DB_Open 2])
   \<and> opened (new_calls [] (snd (Unindex env_half (client_of 3) ''c'' [''a''] []))) = [0, 1, 2]
   \<and> closed (new_calls [] (snd (Unindex env_half (client_of 3) ''c'' [''a''] []))) = [1]
   \<and> Col_Unindex 1 ''c'' [''a''] \<in> set (new_calls [] (snd (Unindex env_half (client_of 3) ''c'' [''a''] [])))"
proof -
  have run: "Unindex env_half (client_of 3) ''c'' [''a''] [] =
     (None, [DB_Open 0, DB_Open 1, Col_Unindex 1 ''c'' [''a''], DB_Close 1, DB_Open 2])"
    by (simp add: Unindex_def reqMaintAccess_def env_half_def env0_def client_of_def upt_rec)
  have s: "(\<forall>g i. e_Use env_half g i ''c'' = (i = 1)) \<and> (\<forall>g c. e_call env_half g c = None)"
    by (simp add: env_half_def env0_def)
  have c: "DB_Close 1 \<in> set (new_calls [] (snd (Unindex env_half (client_of 3) ''c'' [''a''] [])))"
    by (simp add: run new_calls_def)
  from Unindex_leaves_skipped_shards_open [where env = env_half and cl = "client_of 3" and h = "[]"
      and colName = "''c''" and idxPath = "[''a'']" and present = "\<lambda>i. i = 1",
      THEN conjunct2, rule_format, OF s]
    Unindex_leaves_skipped_shards_open [where env = env_half and cl = "client_of 3" and h = "[]"
      and colName = "''c''" and idxPath = "[''a'']", THEN conjunct1, rule_format, OF c]
    run
  show ?thesis
    by (simp add: client_of_def upt_rec new_calls_def)
qed

subsection \<open>Index: routing by hash\<close>

lemma route_word:
  assumes "0 < n" "n < 2 ^ 63"
  shows "(word_of_int n :: uint64) \<noteq> 0" and "sint ((w :: uint64) mod word_of_int n) = uint w mod n"
proof -
  from assms have u: "uint (word_of_int n :: uint64) = n"
    by (simp add: uint_word_of_int take_bit_int_eq_self)
  with assms(1) show "(word_of_int n :: uint64) \<noteq> 0"
    by auto
  have m: "uint (w mod word_of_int n) = uint w mod n"
    by (simp add: uint_mod_distrib u)
  have "0 \<le> uint w mod n" "uint w mod n < 2 ^ 63"
  proof -
    from assms(1) show "0 \<le> uint w mod n" by simp
    from assms(1) have "uint w mod n < n" by simp
    with assms(2) show "uint w mod n < 2 ^ 63" by linarith
  qed
  then have "signed_take_bit 63 (uint w mod n) = uint w mod n"
    by (intro signed_take_bit_int_eq_self) auto
  with m show "sint (w mod word_of_int n) = uint w mod n"
    by (simp add: sint_uint)
qed


lemma Index_vals_doCalls:
  assumes "0 < nProcs cl" "nProcs cl < 2 ^ 63"
  shows "Index_vals env cl htIDBytes (e_Buint64 env docID) vals h =
     doCalls env (map (putCmd env cl htIDBytes docID) (nonNil vals)) h"
proof (induction vals arbitrary: h)
  case Nil
  show ?case by simp
next
  case (Cons v vals)
  show ?case
  proof (cases v)
    case None
    with Cons.IH show ?thesis by simp
  next
    case (Some val)
    with Cons.IH route_word [OF assms] show ?thesis
      by (simp add: Let_def putCmd_def split: option.splits)
  qed
qed

lemma Index_docs_doCalls:
  assumes "0 < nProcs cl" "nProcs cl < 2 ^ 63"
  shows "Index_docs env cl htIDBytes idxPath docs h = doCalls env (pagePuts env cl htIDBytes idxPath docs) h"
proof (induction docs arbitrary: h)
  case Nil
  show ?case by (simp add: pagePuts_def)
next
  case (Cons d docs)
  obtain docID doc where d: "d = (docID, doc)" by (cases d)
  have "pagePuts env cl htIDBytes idxPath (d # docs) =
      map (putCmd env cl htIDBytes docID) (nonNil (e_GetIn env doc idxPath))
      @ pagePuts env cl htIDBytes idxPath docs"
    by (simp add: pagePuts_def d)
  then show ?case
    by (simp add: d doCalls_append Index_vals_doCalls [OF assms] Cons.IH split: prod.splits option.splits)
qed

lemma routed_put_simps [simp]:
  "routed_put env cl g (putCmd env cl (e_Bint32 env htID) docID val)"
  "routed_put env cl g (C_getDocPage n pg tot b)"
  "routed_put env cl g C_reloadServer"
  "routed_put env cl g (C_approxDocCount n)"
  by (auto simp: routed_put_def) metis

lemma shard_call_routed_put: "shard_call g c \<Longrightarrow> routed_put env cl g c"
  by (auto simp: shard_call_def routed_put_def)

lemma ext_static_app:
  assumes "ext Q h0 h" "\<And>c g. c \<in> set p \<Longrightarrow> Q g c"
  shows "ext Q h0 (h @ p)"
proof -
  have "every_new Q g p" for g
    using assms(2) by (induction p arbitrary: g) auto
  with assms(1) show ?thesis by (rule ext_app)
qed

lemma ext_doCalls:
  assumes "doCalls env cs h = (r, h')" "ext Q h0 h" "\<And>c g. c \<in> set cs \<Longrightarrow> Q g c"
  shows "ext Q h0 h'"
proof -
  from doCalls_prefix [of env cs h] assms(1) obtain p where "h' = h @ p" "set p \<subseteq> set cs"
    by auto
  with assms(2,3) show ?thesis
    by (auto intro: ext_static_app)
qed

lemma ext_put_Index_docs:
  assumes "0 < nProcs cl" "nProcs cl < 2 ^ 63"
    and "Index_docs env cl (e_Bint32 env htID) idxPath docs h = (r, h')"
    and "ext (routed_put env cl) h0 h"
  shows "ext (routed_put env cl) h0 h'"
  using assms(3) unfolding Index_docs_doCalls [OF assms(1,2)]
  by (rule ext_doCalls) (use assms(4) in \<open>auto simp: pagePuts_def\<close>)

lemma ext_put_Index_pages:
  assumes "0 < nProcs cl" "nProcs cl < 2 ^ 63"
  shows "Index_pages env cl colName idxPath (e_Bint32 env htID) tot pages h = (r, h') \<Longrightarrow>
    ext (routed_put env cl) h0 h \<Longrightarrow> ext (routed_put env cl) h0 h'"
proof (induction pages arbitrary: h)
  case Nil
  then show ?case by simp
next
  case (Cons page pages)
  note IH = Cons.IH
  note D = ext_put_Index_docs [OF assms]
  from Cons.prems show ?case
    by (fastforce split: sum.splits prod.splits option.splits intro: IH D intro!: ext_app)
qed

lemma ext_put_Index_reindex:
  assumes "0 < nProcs cl" "nProcs cl < 2 ^ 63"
    and "Index_reindex env cl colName idxPath h = (r, h')"
    and "ext (routed_put env cl) h0 h"
  shows "ext (routed_put env cl) h0 h'"
  using assms(3,4) unfolding Index_reindex_def
  by (fastforce split: sum.splits prod.splits option.splits if_splits simp: Let_def
        intro: ext_put_Index_pages [OF assms(1,2)] intro!: ext_app)

lemma ext_put_Index:
  assumes "0 < nProcs cl" "nProcs cl < 2 ^ 63"
  shows "ext (routed_put env cl) h (snd (Index env cl colName idxPath h))"
proof -
  obtain r1 h1 where 1: "Index_shards env colName idxPath [0..<nat (nProcs cl)] h = (r1, h1)"
    by (cases "Index_shards env colName idxPath [0..<nat (nProcs cl)] h")
  then have "ext shard_call h h1"
    by (rule ext_Index_shards_db) (rule ext_refl)
  then have e1: "ext (routed_put env cl) h h1"
    by (rule ext_mono) (rule shard_call_routed_put)
  obtain r2 h2 where 2: "Index_reindex env cl colName idxPath h1 = (r2, h2)"
    by (cases "Index_reindex env cl colName idxPath h1")
  from ext_put_Index_reindex [OF assms 2 e1] have e2: "ext (routed_put env cl) h h2" .
  from 1 2 e1 e2 show ?thesis
    by (cases r1) (simp_all add: Index_def reqMaintAccess_def)
qed


subsection \<open>Paging\<close>

lemma unat_total_pages: "unat ((docCount :: uint64) div 10000 + 1) = unat docCount div 10000 + 1"
proof -
  have "unat docCount < 2 ^ 64"
    using unsigned_less [of docCount, where 'a = nat] by simp
  then have "unat docCount div 10000 + 1 < 2 ^ 64" by simp
  then show ?thesis
    by (simp add: unat_add_lem [THEN iffD1] unat_div)
qed

lemma pagesBelow_25000: "pagesBelow (25000 div 10000 + 1) = [0, 1, 2]"
  by (simp add: pagesBelow_def upt_rec)

lemma Scrub_docs_doCalls:
  "Scrub_docs env tmpColID docs h =
     doCalls env (map (\<lambda>(docID, doc). C_insertRecovery tmpColID docID doc) docs) h"
  by (induction docs arbitrary: h) (auto split: option.splits)

lemma Scrub_pages_None:
  assumes "\<And>g p. e_getDocPage env g colName p tot True = Inr (pg p)"
  shows "Scrub_pages env colName tmpColID tot pages h = (None, h') \<Longrightarrow>
    h' = h @ concat (map (\<lambda>p. C_getDocPage colName p tot True
                              # map (\<lambda>(docID, doc). C_insertRecovery tmpColID docID doc) (pg p)) pages)"
proof (induction pages arbitrary: h)
  case Nil
  then show ?case by simp
next
  case (Cons page pages)
  from Cons.prems obtain h1 where
    1: "Scrub_docs env tmpColID (pg page) (h @ [C_getDocPage colName page tot True]) = (None, h1)"
    and 2: "Scrub_pages env colName tmpColID tot pages h1 = (None, h')"
    by (auto simp: assms split: prod.splits option.splits)
  from 1 have "h1 = h @ C_getDocPage colName page tot True
      # map (\<lambda>(docID, doc). C_insertRecovery tmpColID docID doc) (pg page)"
    by (simp add: Scrub_docs_doCalls doCalls_None)
  with Cons.IH [OF 2] show ?case by simp
qed

lemma Index_pages_None:
  assumes "\<And>g p. e_getDocPage env g colName p tot True = Inr (pg p)"
    and "0 < nProcs cl" "nProcs cl < 2 ^ 63"
  shows "Index_pages env cl colName idxPath htIDBytes tot pages h = (None, h') \<Longrightarrow>
    h' = h @ concat (map (\<lambda>p. C_getDocPage colName p tot True
                              # pagePuts env cl htIDBytes idxPath (pg p)) pages)"
proof (induction pages arbitrary: h)
  case Nil
  then show ?case by simp
next
  case (Cons page pages)
  from Cons.prems obtain h1 where
    1: "Index_docs env cl htIDBytes idxPath (pg page) (h @ [C_getDocPage colName page tot True]) = (None, h1)"
    and 2: "Index_pages env cl colName idxPath htIDBytes tot pages h1 = (None, h')"
    by (auto simp: assms(1) split: prod.splits option.splits)
  from 1 have "h1 = h @ C_getDocPage colName page tot True # pagePuts env cl htIDBytes idxPath (pg page)"
    by (simp add: Index_docs_doCalls [OF assms(2,3)] doCalls_None)
  with Cons.IH [OF 2] show ?case by simp
qed

lemma filter_shardCalls:
  "(\<And>c. P c \<Longrightarrow> shard_of c = None) \<Longrightarrow> filter P (concat (map (shardCalls op) xs)) = []"
  by (auto simp: filter_empty_conv dest: shard_of_shardCalls)

lemma isFetch_client: "isFetch c \<Longrightarrow> shard_of c = None"
  by (cases c) auto

lemma isInsert_client: "isInsert c \<Longrightarrow> shard_of c = None"
  by (cases c) auto

lemma isSend_client: "isSend c \<Longrightarrow> shard_of c = None"
  by (cases c) auto

lemma filter_pages_fetch:
  "(\<And>p c. c \<in> set (f p) \<Longrightarrow> \<not> isFetch c) \<Longrightarrow>
   filter isFetch (concat (map (\<lambda>p. C_getDocPage colName p tot True # f p) pages)) =
     map (\<lambda>p. C_getDocPage colName p tot True) pages"
  by (induction pages) (auto simp: filter_empty_conv)

lemma filter_pages_other:
  "(\<And>p c. c \<in> set (f p) \<Longrightarrow> P c) \<Longrightarrow>
   (\<And>p. \<not> P (C_getDocPage colName p tot True)) \<Longrightarrow>
   filter P (concat (map (\<lambda>p. C_getDocPage colName p tot True # f p) pages)) = concat (map f pages)"
  by (induction pages) (auto simp: filter_id_conv)

lemma pagePuts_isSend: "c \<in> set (pagePuts env cl htIDBytes idxPath docs) \<Longrightarrow> isSend c"
  by (auto simp: pagePuts_def putCmd_def)


lemma Scrub_migrate_None:
  assumes "\<And>g. e_approxDocCount env g colName = Inr docCount"
    and "\<And>g p. e_getDocPage env g colName p (docCount div 10000 + 1) True = Inr (pg p)"
    and "Scrub_migrate env colName tmpColName h1 = (None, h2)"
  shows "\<exists>tmpColID. h2 = h1 @ [C_reloadServer, C_approxDocCount colName]
     @ concat (map (\<lambda>p. C_getDocPage colName p (docCount div 10000 + 1) True
                       # map (\<lambda>(docID, doc). C_insertRecovery tmpColID docID doc) (pg p))
                 (pagesBelow (docCount div 10000 + 1)))"
proof -
  from assms(3) obtain tmpColID where
    "Scrub_pages env colName tmpColID (docCount div 10000 + 1) (pagesBelow (docCount div 10000 + 1))
       (h1 @ [C_reloadServer, C_approxDocCount colName]) = (None, h2)"
    by (auto simp: Scrub_migrate_def assms(1) Let_def split: option.splits)
  from Scrub_pages_None [where pg = pg, OF assms(2) this] show ?thesis
    by auto
qed

lemma Index_reindex_None:
  assumes "\<And>g. e_approxDocCount env g colName = Inr docCount"
    and "\<And>g p. e_getDocPage env g colName p (docCount div 10000 + 1) True = Inr (pg p)"
    and "0 < nProcs cl" "nProcs cl < 2 ^ 63"
    and "Index_reindex env cl colName idxPath h1 = (None, h2)"
  shows "\<exists>htID. h2 = h1 @ [C_reloadServer, C_approxDocCount colName]
     @ concat (map (\<lambda>p. C_getDocPage colName p (docCount div 10000 + 1) True
                       # pagePuts env cl (e_Bint32 env htID) idxPath (pg p))
                 (pagesBelow (docCount div 10000 + 1)))"
proof -
  from assms(5) obtain htID where
    "Index_pages env cl colName idxPath (e_Bint32 env htID) (docCount div 10000 + 1)
       (pagesBelow (docCount div 10000 + 1))
       (h1 @ [C_reloadServer, C_approxDocCount colName]) = (None, h2)"
    by (auto simp: Index_reindex_def assms(1) Let_def split: option.splits if_splits)
  from Index_pages_None [where pg = pg, OF assms(2,3,4) this] show ?thesis
    by auto
qed

lemma Index_None:
  assumes "Index env cl colName idxPath h = (None, h')"
  shows "\<exists>h1. ext shard_call h h1 \<and> Index_reindex env cl colName idxPath h1 = (None, h')"
proof -
  from assms obtain h1 where 1: "Index_shards env colName idxPath [0..<nat (nProcs cl)] h = (None, h1)"
    and 2: "Index_reindex env cl colName idxPath h1 = (None, h')"
    by (auto simp: Index_def reqMaintAccess_def split: prod.splits option.splits)
  from 1 have "ext shard_call h h1"
    by (rule ext_Index_shards_db) (rule ext_refl)
  with 2 show ?thesis by blast
qed

lemma filter_shard_ext:
  assumes "ext shard_call h h1" "\<And>c. P c \<Longrightarrow> shard_of c = None"
  shows "filter P (new_calls h (h1 @ tr)) = filter P tr"
proof -
  from ext_set [OF assms(1)] assms(2) have "filter P (new_calls h h1) = []"
    by (fastforce simp: filter_empty_conv shard_call_def)
  then show ?thesis
    by (simp add: ext_new_calls_snoc [OF assms(1)])
qed

lemma pagesBelow_total:
  "pagesBelow (docCount div 10000 + 1) = map of_nat [0..<unat docCount div 10000 + 1]"
  by (simp add: pagesBelow_def unat_total_pages)

lemma Scrub_env_25k:
  "Scrub env_25k (client_of 1) ''c'' [] =
     (None,
      [DB_Open 0, DB_Create 0 ''scrub-c-7'', Col_BPIndex 0 ''scrub-c-7'' [''a''], DB_Close 0,
       C_reloadServer, C_approxDocCount ''c'',
       C_getDocPage ''c'' 0 3 True, C_insertRecovery 2 40 0,
       C_getDocPage ''c'' 1 3 True, C_insertRecovery 2 41 1,
       C_getDocPage ''c'' 2 3 True, C_insertRecovery 2 42 2,
       DB_Open 0, DB_Drop 0 ''c'', DB_Rename 0 ''scrub-c-7'' ''c'', DB_Close 0,
       C_reloadServer])"
  by (simp add: Scrub_def reqMaintAccess_def Scrub_create_def Scrub_migrate_def Scrub_swap_def
        Scrub_create_fun_def Scrub_swap_fun_def forAllDBsDo_def existingIndexesOf_def pagesBelow_def
        tmpName_def intDec_def natDec.simps digit_def
        env_25k_def env_idx_def schema_c_def env0_def client_of_def upt_rec Let_def)

subsection \<open>Index: the scan as a whole\<close>

lemma runCalls_append:
  "runCalls env (a @ b) h =
     (case runCalls env a h of (Some e, h1) \<Rightarrow> (Some e, h1) | (None, h1) \<Rightarrow> runCalls env b h1)"
  by (induction a arbitrary: h) (auto split: option.splits)

lemma reply_isSend: "isSend c \<Longrightarrow> reply env h c = e_call env h c"
  by (cases c) auto

lemma runCalls_sends: "(\<And>c. c \<in> set cs \<Longrightarrow> isSend c) \<Longrightarrow> runCalls env cs h = doCalls env cs h"
  by (induction cs arbitrary: h) (auto simp: reply_isSend split: option.splits)

lemma isSend_pagePuts: "c \<in> set (pagePuts env cl htIDBytes idxPath docs) \<Longrightarrow> isSend c"
  by (auto simp: pagePuts_def putCmd_def)

lemma Index_pages_runCalls:
  assumes "0 < nProcs cl" "nProcs cl < 2 ^ 63"
  shows "Index_pages env cl colName idxPath htIDBytes tot pages h =
     runCalls env (indexPagesTrace env cl colName idxPath htIDBytes tot pages h) h"
proof (induction pages arbitrary: h)
  case Nil
  show ?case by simp
next
  case (Cons page pages)
  let ?f = "C_getDocPage colName page tot True :: 'a call"
  show ?case
  proof (cases "e_getDocPage env h colName page tot True")
    case (Inl e)
    then show ?thesis by simp
  next
    case (Inr docs)
    let ?puts = "pagePuts env cl htIDBytes idxPath docs"
    have d: "Index_docs env cl htIDBytes idxPath docs (h @ [?f]) = doCalls env ?puts (h @ [?f])"
      by (rule Index_docs_doCalls [OF assms])
    have r: "runCalls env ?puts (h @ [?f]) = doCalls env ?puts (h @ [?f])"
      by (rule runCalls_sends) (rule isSend_pagePuts)
    show ?thesis
    proof (cases "doCalls env ?puts (h @ [?f])")
      case (Pair r1 h1)
      show ?thesis
      proof (cases r1)
        case None
        with Pair have "h1 = h @ ?f # ?puts"
          by (simp add: doCalls_None)
        with Inr Pair None d r Cons.IH [of h1] show ?thesis
          by (simp add: runCalls_append)
      next
        case (Some e)
        with Inr Pair d r show ?thesis
          by (simp add: runCalls_append)
      qed
    qed
  qed
qed

lemma doCalls_ok: "(\<And>g c. e_call env g c = None) \<Longrightarrow> doCalls env cs h = (None, h @ cs)"
  by (simp add: doCalls_None all_ok_static)

lemma Index_shards_ok:
  assumes "\<And>g c. e_call env g c = None" "\<And>g i. e_Use env g i colName"
  shows "Index_shards env colName idxPath xs h =
     (None, h @ concat (map (\<lambda>i. [DB_Open i, Col_BPIndex i colName idxPath, DB_Close i]) xs))"
  by (induction xs arbitrary: h) (simp_all add: assms)

lemma Index_pages_ok:
  assumes "\<And>g c. e_call env g c = None"
    and "\<And>g p. e_getDocPage env g colName p tot True = Inr (pg p)"
    and "0 < nProcs cl" "nProcs cl < 2 ^ 63"
  shows "Index_pages env cl colName idxPath htIDBytes tot pages h =
     (None, h @ concat (map (\<lambda>p. C_getDocPage colName p tot True
                               # pagePuts env cl htIDBytes idxPath (pg p)) pages))"
  by (induction pages arbitrary: h)
     (simp_all add: assms(2) Index_docs_doCalls [OF assms(3,4)] doCalls_ok [OF assms(1)])

lemma Index_ok:
  assumes "\<And>g c. e_call env g c = None" "\<And>g i. e_Use env g i colName"
    and "\<And>g. e_GetHTIDByPath env (e_schema env g) colName idxPath = htID" "htID \<noteq> - 1"
    and "\<And>g. e_approxDocCount env g colName = Inr docCount"
    and "\<And>g p. e_getDocPage env g colName p (docCount div 10000 + 1) True = Inr (pg p)"
    and "0 < nProcs cl" "nProcs cl < 2 ^ 63"
  shows "Index env cl colName idxPath h =
     (None, h @ concat (map (\<lambda>i. [DB_Open i, Col_BPIndex i colName idxPath, DB_Close i])
                          [0..<nat (nProcs cl)])
              @ [C_reloadServer, C_approxDocCount colName]
              @ concat (map (\<lambda>p. C_getDocPage colName p (docCount div 10000 + 1) True
                               # pagePuts env cl (e_Bint32 env htID) idxPath (pg p))
                          (pagesBelow (docCount div 10000 + 1))))"
  by (simp add: Index_def reqMaintAccess_def Index_reindex_def Let_def
        Index_shards_ok [OF assms(1,2)] assms(1,3,4,5)
        Index_pages_ok [where pg = pg, OF assms(1) assms(6,7,8)])

lemma Index_general:
  assumes "0 < nProcs cl" "nProcs cl < 2 ^ 63"
    and "Index_shards env colName idxPath [0..<nat (nProcs cl)] h = (None, h1)"
    and "e_call env h1 C_reloadServer = None"
    and "e_GetHTIDByPath env (e_schema env (h1 @ [C_reloadServer])) colName idxPath \<noteq> - 1"
    and "e_approxDocCount env (h1 @ [C_reloadServer]) colName = Inr docCount"
  shows "Index env cl colName idxPath h =
     runCalls env
       (indexPagesTrace env cl colName idxPath
          (e_Bint32 env (e_GetHTIDByPath env (e_schema env (h1 @ [C_reloadServer])) colName idxPath))
          (docCount div 10000 + 1) (pagesBelow (docCount div 10000 + 1))
          (h1 @ [C_reloadServer, C_approxDocCount colName]))
       (h1 @ [C_reloadServer, C_approxDocCount colName])"
  using assms(3-6)
  by (simp add: Index_def reqMaintAccess_def Index_reindex_def Let_def
        Index_pages_runCalls [OF assms(1,2)])


text \<open>
  Claim C2.  With \<open>N\<close> shards (\<open>0 < N < 2^63\<close>): once its first loop has succeeded, the
  reload has succeeded, the reloaded cache has a routing identity for (collection, path)
  and the count is known, \<^verbatim>\<open>Index\<close> makes the calls of \<open>indexPagesTrace\<close> in order, up
  to the first call that fails: for every page in order, the fetch of the page and then,
  for every document of the page and every non-nil leaf value of the path in it, one put
  command, sent to the shard \<open>hash(value) mod N\<close> with the routing identity of the
  reloaded cache, the hashed value and the document id; nil values are skipped.  On a
  run where nothing fails and the collection does not change, these are all the calls,
  written out.  The loop over the documents of one page does the same from any history,
  and every \<open>C_sendCmd\<close> of any run of \<^verbatim>\<open>Index\<close> is such a put command.  The shard is
  a function of the value and of \<open>N\<close> alone, the same on every run.
\<close>

theorem Index_routes_by_hash:
  assumes "0 < nProcs cl" "nProcs cl < 2 ^ 63"
  shows "(Index_shards env colName idxPath [0..<nat (nProcs cl)] h = (None, h1) \<and>
          e_call env h1 C_reloadServer = None \<and>
          e_GetHTIDByPath env (e_schema env (h1 @ [C_reloadServer])) colName idxPath \<noteq> - 1 \<and>
          e_approxDocCount env (h1 @ [C_reloadServer]) colName = Inr docCount \<longrightarrow>
            Index env cl colName idxPath h =
              runCalls env
                (indexPagesTrace env cl colName idxPath
                   (e_Bint32 env (e_GetHTIDByPath env (e_schema env (h1 @ [C_reloadServer])) colName idxPath))
                   (docCount div 10000 + 1) (pagesBelow (docCount div 10000 + 1))
                   (h1 @ [C_reloadServer, C_approxDocCount colName]))
                (h1 @ [C_reloadServer, C_approxDocCount colName]))
       \<and> ((\<forall>g c. e_call env g c = None) \<and> (\<forall>g i. e_Use env g i colName) \<and>
          (\<forall>g. e_GetHTIDByPath env (e_schema env g) colName idxPath = htID) \<and> htID \<noteq> - 1 \<and>
          (\<forall>g. e_approxDocCount env g colName = Inr count) \<and>
          (\<forall>g p. e_getDocPage env g colName p (count div 10000 + 1) True = Inr (pg p)) \<longrightarrow>
            Index env cl colName idxPath h =
              (None, h @ concat (map (\<lambda>i. [DB_Open i, Col_BPIndex i colName idxPath, DB_Close i])
                                   [0..<nat (nProcs cl)])
                       @ [C_reloadServer, C_approxDocCount colName]
                       @ concat (map (\<lambda>p. C_getDocPage colName p (count div 10000 + 1) True
                                        # pagePuts env cl (e_Bint32 env htID) idxPath (pg p))
                                   (pagesBelow (count div 10000 + 1)))))
       \<and> Index_docs env cl htIDBytes idxPath docs h =
           doCalls env (pagePuts env cl htIDBytes idxPath docs) h
       \<and> (\<forall>c\<in>set (new_calls h (snd (Index env cl colName idxPath h))).
            \<forall>rank retry op params. c = C_sendCmd rank retry op params \<longrightarrow>
              (\<exists>htID docID val. c = putCmd env cl (e_Bint32 env htID) docID val))"
proof -
  have a: "Index_shards env colName idxPath [0..<nat (nProcs cl)] h = (None, h1) \<and>
          e_call env h1 C_reloadServer = None \<and>
          e_GetHTIDByPath env (e_schema env (h1 @ [C_reloadServer])) colName idxPath \<noteq> - 1 \<and>
          e_approxDocCount env (h1 @ [C_reloadServer]) colName = Inr docCount \<longrightarrow>
            Index env cl colName idxPath h =
              runCalls env
                (indexPagesTrace env cl colName idxPath
                   (e_Bint32 env (e_GetHTIDByPath env (e_schema env (h1 @ [C_reloadServer])) colName idxPath))
                   (docCount div 10000 + 1) (pagesBelow (docCount div 10000 + 1))
                   (h1 @ [C_reloadServer, C_approxDocCount colName]))
                (h1 @ [C_reloadServer, C_approxDocCount colName])"
    using Index_general [OF assms] by blast
  have b: "(\<forall>g c. e_call env g c = None) \<and> (\<forall>g i. e_Use env g i colName) \<and>
          (\<forall>g. e_GetHTIDByPath env (e_schema env g) colName idxPath = htID) \<and> htID \<noteq> - 1 \<and>
          (\<forall>g. e_approxDocCount env g colName = Inr count) \<and>
          (\<forall>g p. e_getDocPage env g colName p (count div 10000 + 1) True = Inr (pg p)) \<longrightarrow>
            Index env cl colName idxPath h =
              (None, h @ concat (map (\<lambda>i. [DB_Open i, Col_BPIndex i colName idxPath, DB_Close i])
                                   [0..<nat (nProcs cl)])
                       @ [C_reloadServer, C_approxDocCount colName]
                       @ concat (map (\<lambda>p. C_getDocPage colName p (count div 10000 + 1) True
                                        # pagePuts env cl (e_Bint32 env htID) idxPath (pg p))
                                   (pagesBelow (count div 10000 + 1))))"
  proof (intro impI, elim conjE)
    assume h: "\<forall>g c. e_call env g c = None" "\<forall>g i. e_Use env g i colName"
      "\<forall>g. e_GetHTIDByPath env (e_schema env g) colName idxPath = htID" "htID \<noteq> - 1"
      "\<forall>g. e_approxDocCount env g colName = Inr count"
      "\<forall>g p. e_getDocPage env g colName p (count div 10000 + 1) True = Inr (pg p)"
    show "Index env cl colName idxPath h =
              (None, h @ concat (map (\<lambda>i. [DB_Open i, Col_BPIndex i colName idxPath, DB_Close i])
                                   [0..<nat (nProcs cl)])
                       @ [C_reloadServer, C_approxDocCount colName]
                       @ concat (map (\<lambda>p. C_getDocPage colName p (count div 10000 + 1) True
                                        # pagePuts env cl (e_Bint32 env htID) idxPath (pg p))
                                   (pagesBelow (count div 10000 + 1))))"
      by (rule Index_ok [where pg = pg]) (use h assms in simp_all)
  qed
  have c: "Index_docs env cl htIDBytes idxPath docs h =
           doCalls env (pagePuts env cl htIDBytes idxPath docs) h"
    by (rule Index_docs_doCalls [OF assms])
  have "\<exists>htID docID val. c = putCmd env cl (e_Bint32 env htID) docID val"
    if "c \<in> set (new_calls h (snd (Index env cl colName idxPath h)))"
      "c = C_sendCmd rank retry op params" for c rank retry op params
    using ext_set [OF ext_put_Index [OF assms] that(1)] that(2)
    by (auto simp: routed_put_def)
  then have d: "\<forall>c\<in>set (new_calls h (snd (Index env cl colName idxPath h))).
            \<forall>rank retry op params. c = C_sendCmd rank retry op params \<longrightarrow>
              (\<exists>htID docID val. c = putCmd env cl (e_Bint32 env htID) docID val)"
    by blast
  show ?thesis
    by (rule conjI [OF a conjI [OF b conjI [OF c d]]])
qed

theorem Index_routes_by_hash_witness:
  "Index env_idx (client_of 3) ''c'' [''a''] [] =
     (None,
      [DB_Open 0, Col_BPIndex 0 ''c'' [''a''], DB_Close 0,
       DB_Open 1, Col_BPIndex 1 ''c'' [''a''], DB_Close 1,
       DB_Open 2, Col_BPIndex 2 ''c'' [''a''], DB_Close 2,
       C_reloadServer, C_approxDocCount ''c'', C_getDocPage ''c'' 0 1 True,
       C_sendCmd 1 False C_HT_PUT [[5], [100], [11]],
       C_sendCmd 2 False C_HT_PUT [[5], [200], [12]]])
   \<and> Index env_idx (client_of 3) ''c'' [''a''] [] =
       runCalls env_idx
         (indexPagesTrace env_idx (client_of 3) ''c'' [''a''] [5] 1 [0]
            [DB_Open 0, Col_BPIndex 0 ''c'' [''a''], DB_Close 0,
       DB_Open 1, Col_BPIndex 1 ''c'' [''a''], DB_Close 1,
       DB_Open 2, Col_BPIndex 2 ''c'' [''a''], DB_Close 2,
       C_reloadServer, C_approxDocCount ''c''])
         [DB_Open 0, Col_BPIndex 0 ''c'' [''a''], DB_Close 0,
       DB_Open 1, Col_BPIndex 1 ''c'' [''a''], DB_Close 1,
       DB_Open 2, Col_BPIndex 2 ''c'' [''a''], DB_Close 2,
       C_reloadServer, C_approxDocCount ''c'']"
proof -
  have n: "0 < nProcs (client_of 3)" "nProcs (client_of 3) < 2 ^ 63"
    by (simp_all add: client_of_def)
  have b: "(\<forall>g c. e_call env_idx g c = None) \<and> (\<forall>g i. e_Use env_idx g i ''c'') \<and>
          (\<forall>g. e_GetHTIDByPath env_idx (e_schema env_idx g) ''c'' [''a''] = 5) \<and> (5 :: int32) \<noteq> - 1 \<and>
          (\<forall>g. e_approxDocCount env_idx g ''c'' = Inr 0) \<and>
          (\<forall>g p. e_getDocPage env_idx g ''c'' p (0 div 10000 + 1) True = Inr [(11, 100), (12, 200)])"
    by (simp add: env_idx_def env0_def)
  have a: "Index_shards env_idx ''c'' [''a''] [0..<nat (nProcs (client_of 3))] [] =
        (None, [DB_Open 0, Col_BPIndex 0 ''c'' [''a''], DB_Close 0,
       DB_Open 1, Col_BPIndex 1 ''c'' [''a''], DB_Close 1,
       DB_Open 2, Col_BPIndex 2 ''c'' [''a''], DB_Close 2]) \<and>
      e_call env_idx [DB_Open 0, Col_BPIndex 0 ''c'' [''a''], DB_Close 0,
       DB_Open 1, Col_BPIndex 1 ''c'' [''a''], DB_Close 1,
       DB_Open 2, Col_BPIndex 2 ''c'' [''a''], DB_Close 2] C_reloadServer = None \<and>
      e_GetHTIDByPath env_idx (e_schema env_idx ([DB_Open 0, Col_BPIndex 0 ''c'' [''a''], DB_Close 0,
       DB_Open 1, Col_BPIndex 1 ''c'' [''a''], DB_Close 1,
       DB_Open 2, Col_BPIndex 2 ''c'' [''a''], DB_Close 2] @ [C_reloadServer])) ''c'' [''a''] \<noteq> - 1 \<and>
      e_approxDocCount env_idx ([DB_Open 0, Col_BPIndex 0 ''c'' [''a''], DB_Close 0,
       DB_Open 1, Col_BPIndex 1 ''c'' [''a''], DB_Close 1,
       DB_Open 2, Col_BPIndex 2 ''c'' [''a''], DB_Close 2] @ [C_reloadServer]) ''c'' = Inr 0"
    by (simp add: env_idx_def env0_def client_of_def upt_rec)
  from Index_routes_by_hash [OF n, THEN conjunct2, THEN conjunct1, rule_format, OF b,
         where h = "[]"]
  have 1: "Index env_idx (client_of 3) ''c'' [''a''] [] =
     (None,
      [DB_Open 0, Col_BPIndex 0 ''c'' [''a''], DB_Close 0,
       DB_Open 1, Col_BPIndex 1 ''c'' [''a''], DB_Close 1,
       DB_Open 2, Col_BPIndex 2 ''c'' [''a''], DB_Close 2,
       C_reloadServer, C_approxDocCount ''c'', C_getDocPage ''c'' 0 1 True,
       C_sendCmd 1 False C_HT_PUT [[5], [100], [11]],
       C_sendCmd 2 False C_HT_PUT [[5], [200], [12]]])"
    by (simp add: pagePuts_def putCmd_def pagesBelow_def env_idx_def env0_def client_of_def upt_rec)
  from Index_routes_by_hash [OF n, THEN conjunct1, rule_format, OF a]
  have 2: "Index env_idx (client_of 3) ''c'' [''a''] [] =
     (None,
      [DB_Open 0, Col_BPIndex 0 ''c'' [''a''], DB_Close 0,
       DB_Open 1, Col_BPIndex 1 ''c'' [''a''], DB_Close 1,
       DB_Open 2, Col_BPIndex 2 ''c'' [''a''], DB_Close 2,
       C_reloadServer, C_approxDocCount ''c'', C_getDocPage ''c'' 0 1 True,
       C_sendCmd 1 False C_HT_PUT [[5], [100], [11]],
       C_sendCmd 2 False C_HT_PUT [[5], [200], [12]]])"
    by (simp add: pagePuts_def putCmd_def pagesBelow_def env_idx_def env0_def client_of_def upt_rec)
  have 3: "runCalls env_idx
         (indexPagesTrace env_idx (client_of 3) ''c'' [''a''] [5] 1 [0]
            [DB_Open 0, Col_BPIndex 0 ''c'' [''a''], DB_Close 0,
       DB_Open 1, Col_BPIndex 1 ''c'' [''a''], DB_Close 1,
       DB_Open 2, Col_BPIndex 2 ''c'' [''a''], DB_Close 2,
       C_reloadServer, C_approxDocCount ''c''])
         [DB_Open 0, Col_BPIndex 0 ''c'' [''a''], DB_Close 0,
       DB_Open 1, Col_BPIndex 1 ''c'' [''a''], DB_Close 1,
       DB_Open 2, Col_BPIndex 2 ''c'' [''a''], DB_Close 2,
       C_reloadServer, C_approxDocCount ''c''] =
     (None,
      [DB_Open 0, Col_BPIndex 0 ''c'' [''a''], DB_Close 0,
       DB_Open 1, Col_BPIndex 1 ''c'' [''a''], DB_Close 1,
       DB_Open 2, Col_BPIndex 2 ''c'' [''a''], DB_Close 2,
       C_reloadServer, C_approxDocCount ''c'', C_getDocPage ''c'' 0 1 True,
       C_sendCmd 1 False C_HT_PUT [[5], [100], [11]],
       C_sendCmd 2 False C_HT_PUT [[5], [200], [12]]])"
    by (simp add: pagePuts_def putCmd_def env_idx_def env0_def client_of_def)
  from 1 2 3 show ?thesis by simp
qed

subsection \<open>Paging: every run, and the runs where nothing fails\<close>

lemma call_is_send [simp]: "call_is isSend g (C_sendCmd rank retry op params)"
  by (simp add: call_is_def)

lemma ext_call_is:
  assumes "ext (call_is P) h H"
  shows "\<exists>tr. H = h @ tr \<and> (\<forall>c\<in>set tr. P c)"
proof -
  have "every_new (call_is P) g tr \<Longrightarrow> \<forall>c\<in>set tr. P c" for g tr
    by (induction tr arbitrary: g) (auto simp: call_is_def)
  with assms show ?thesis by (auto simp: ext_def)
qed

lemma ext_send_Index_vals:
  "Index_vals env cl a b vals h = (r, h') \<Longrightarrow> ext (call_is isSend) h0 h \<Longrightarrow> ext (call_is isSend) h0 h'"
proof (induction vals arbitrary: h)
  case Nil
  then show ?case by simp
next
  case (Cons v vals)
  note IH = Cons.IH
  from Cons.prems show ?case
    by (cases v) (auto split: option.splits if_splits simp: Let_def intro: IH intro!: ext_app)
qed

lemma ext_send_Index_docs:
  "Index_docs env cl a p docs h = (r, h') \<Longrightarrow> ext (call_is isSend) h0 h \<Longrightarrow> ext (call_is isSend) h0 h'"
proof (induction docs arbitrary: h)
  case Nil
  then show ?case by simp
next
  case (Cons d docs)
  note IH = Cons.IH
  from Cons.prems show ?case
    by (cases d) (auto split: prod.splits option.splits intro: IH ext_send_Index_vals)
qed

lemma Index_docs_sends:
  "\<exists>tr. snd (Index_docs env cl a p docs h) = h @ tr \<and> filter isFetch tr = []"
proof -
  obtain r h' where 1: "Index_docs env cl a p docs h = (r, h')"
    by (cases "Index_docs env cl a p docs h")
  then have "ext (call_is isSend) h h'"
    by (rule ext_send_Index_docs) (rule ext_refl)
  from ext_call_is [OF this] obtain tr where "h' = h @ tr" "\<forall>c\<in>set tr. isSend c" by blast
  moreover have "isSend c \<Longrightarrow> \<not> isFetch c" for c :: "'a call"
    by (cases c) auto
  ultimately have "h' = h @ tr \<and> filter isFetch tr = []"
    by (auto simp: filter_empty_conv)
  with 1 show ?thesis by auto
qed

lemma Scrub_docs_inserts:
  "\<exists>tr. snd (Scrub_docs env tmpColID docs h) = h @ tr \<and> filter isFetch tr = []"
proof -
  from doCalls_prefix [of env "map (\<lambda>(docID, doc). C_insertRecovery tmpColID docID doc) docs" h]
  obtain p where "snd (Scrub_docs env tmpColID docs h) = h @ p"
    "set p \<subseteq> set (map (\<lambda>(docID, doc). C_insertRecovery tmpColID docID doc) docs)"
    by (auto simp: Scrub_docs_doCalls)
  then have "snd (Scrub_docs env tmpColID docs h) = h @ p \<and> filter isFetch p = []"
    by (auto simp: filter_empty_conv)
  then show ?thesis by blast
qed

lemma Scrub_pages_fetch_step:
  "\<exists>tr m. snd (Scrub_pages env colName tmpColID tot (page # pages) h) = h @ tr \<and> m \<le> length (page # pages) \<and>
     filter isFetch tr = map (\<lambda>p. C_getDocPage colName p tot True) (take m (page # pages))"
  if IH: "\<And>g. \<exists>tr m. snd (Scrub_pages env colName tmpColID tot pages g) = g @ tr \<and> m \<le> length pages \<and>
     filter isFetch tr = map (\<lambda>p. C_getDocPage colName p tot True) (take m pages)"
proof -
  let ?f = "C_getDocPage colName page tot True :: 'a call"
  have one: "\<exists>tr m. h @ ?f # p = h @ tr \<and> m \<le> length (page # pages) \<and>
      filter isFetch tr = map (\<lambda>p. C_getDocPage colName p tot True) (take m (page # pages))"
    if "filter isFetch p = []" for p
    using that by (intro exI [of _ "?f # p"] exI [of _ 1]) simp
  show ?thesis
  proof (cases "e_getDocPage env h colName page tot True")
    case (Inl e)
    then have "snd (Scrub_pages env colName tmpColID tot (page # pages) h) = h @ ?f # []" by simp
    with one [of "[]"] show ?thesis by simp
  next
    case (Inr docs)
    obtain r1 h1 where d: "Scrub_docs env tmpColID docs (h @ [?f]) = (r1, h1)"
      by (cases "Scrub_docs env tmpColID docs (h @ [?f])")
    from Scrub_docs_inserts [of env tmpColID docs "h @ [?f]"] d obtain p where
      p: "h1 = h @ ?f # p" "filter isFetch p = []"
      by auto
    show ?thesis
    proof (cases r1)
      case (Some e)
      with Inr d have "snd (Scrub_pages env colName tmpColID tot (page # pages) h) = h1" by simp
      with p one [of p] show ?thesis by simp
    next
      case None
      with Inr d have eq: "snd (Scrub_pages env colName tmpColID tot (page # pages) h) = snd (Scrub_pages env colName tmpColID tot pages h1)" by simp
      from IH [of h1] obtain tr m where
        tr: "snd (Scrub_pages env colName tmpColID tot pages h1) = h1 @ tr" "m \<le> length pages"
          "filter isFetch tr = map (\<lambda>p. C_getDocPage colName p tot True) (take m pages)"
        by blast
      with p have "snd (Scrub_pages env colName tmpColID tot pages h1) = h @ (?f # p @ tr)
        \<and> Suc m \<le> length (page # pages)
        \<and> filter isFetch (?f # p @ tr) = map (\<lambda>p. C_getDocPage colName p tot True) (take (Suc m) (page # pages))"
        by simp
      then show ?thesis unfolding eq by blast
    qed
  qed
qed

lemma Index_pages_fetch_step:
  "\<exists>tr m. snd (Index_pages env cl colName idxPath htIDBytes tot (page # pages) h) = h @ tr \<and> m \<le> length (page # pages) \<and>
     filter isFetch tr = map (\<lambda>p. C_getDocPage colName p tot True) (take m (page # pages))"
  if IH: "\<And>g. \<exists>tr m. snd (Index_pages env cl colName idxPath htIDBytes tot pages g) = g @ tr \<and> m \<le> length pages \<and>
     filter isFetch tr = map (\<lambda>p. C_getDocPage colName p tot True) (take m pages)"
proof -
  let ?f = "C_getDocPage colName page tot True :: 'a call"
  have one: "\<exists>tr m. h @ ?f # p = h @ tr \<and> m \<le> length (page # pages) \<and>
      filter isFetch tr = map (\<lambda>p. C_getDocPage colName p tot True) (take m (page # pages))"
    if "filter isFetch p = []" for p
    using that by (intro exI [of _ "?f # p"] exI [of _ 1]) simp
  show ?thesis
  proof (cases "e_getDocPage env h colName page tot True")
    case (Inl e)
    then have "snd (Index_pages env cl colName idxPath htIDBytes tot (page # pages) h) = h @ ?f # []" by simp
    with one [of "[]"] show ?thesis by simp
  next
    case (Inr docs)
    obtain r1 h1 where d: "Index_docs env cl htIDBytes idxPath docs (h @ [?f]) = (r1, h1)"
      by (cases "Index_docs env cl htIDBytes idxPath docs (h @ [?f])")
    from Index_docs_sends [of env cl htIDBytes idxPath docs "h @ [?f]"] d obtain p where
      p: "h1 = h @ ?f # p" "filter isFetch p = []"
      by auto
    show ?thesis
    proof (cases r1)
      case (Some e)
      with Inr d have "snd (Index_pages env cl colName idxPath htIDBytes tot (page # pages) h) = h1" by simp
      with p one [of p] show ?thesis by simp
    next
      case None
      with Inr d have eq: "snd (Index_pages env cl colName idxPath htIDBytes tot (page # pages) h) = snd (Index_pages env cl colName idxPath htIDBytes tot pages h1)" by simp
      from IH [of h1] obtain tr m where
        tr: "snd (Index_pages env cl colName idxPath htIDBytes tot pages h1) = h1 @ tr" "m \<le> length pages"
          "filter isFetch tr = map (\<lambda>p. C_getDocPage colName p tot True) (take m pages)"
        by blast
      with p have "snd (Index_pages env cl colName idxPath htIDBytes tot pages h1) = h @ (?f # p @ tr)
        \<and> Suc m \<le> length (page # pages)
        \<and> filter isFetch (?f # p @ tr) = map (\<lambda>p. C_getDocPage colName p tot True) (take (Suc m) (page # pages))"
        by simp
      then show ?thesis unfolding eq by blast
    qed
  qed
qed

lemma Scrub_pages_fetch_order:
  "\<exists>tr m. snd (Scrub_pages env colName tmpColID tot pages h) = h @ tr \<and> m \<le> length pages \<and>
     filter isFetch tr = map (\<lambda>p. C_getDocPage colName p tot True) (take m pages)"
proof (induction pages arbitrary: h)
  case Nil
  show ?case by simp
next
  case (Cons page pages)
  show ?case by (rule Scrub_pages_fetch_step) (rule Cons.IH)
qed

lemma Index_pages_fetch_order:
  "\<exists>tr m. snd (Index_pages env cl colName idxPath htIDBytes tot pages h) = h @ tr \<and> m \<le> length pages \<and>
     filter isFetch tr = map (\<lambda>p. C_getDocPage colName p tot True) (take m pages)"
proof (induction pages arbitrary: h)
  case Nil
  show ?case by simp
next
  case (Cons page pages)
  show ?case by (rule Index_pages_fetch_step) (rule Cons.IH)
qed


lemma insertedIDs_filter: "insertedIDs (filter isInsert tr) = insertedIDs tr"
  by (induction tr rule: insertedIDs.induct) auto

lemma insertedIDs_map:
  "insertedIDs (map (\<lambda>(docID, doc). C_insertRecovery tmpColID docID doc) entries) = map fst entries"
  by (induction entries) auto

lemma pagePuts_concat:
  "pagePuts env cl htIDBytes idxPath (concat xs) = concat (map (pagePuts env cl htIDBytes idxPath) xs)"
  by (induction xs) (simp_all add: pagePuts_def)

lemma Scrub_None_pages:
  assumes "\<And>g. e_approxDocCount env g colName = Inr docCount"
    and "\<And>g p. e_getDocPage env g colName p (docCount div 10000 + 1) True = Inr (pg p)"
    and run: "Scrub env cl colName h = (None, h')"
  shows "filter isFetch (new_calls h h') =
            map (\<lambda>p. C_getDocPage colName p (docCount div 10000 + 1) True)
              (pagesBelow (docCount div 10000 + 1)) \<and>
          (\<exists>tmpColID. filter isInsert (new_calls h h') =
            concat (map (\<lambda>p. map (\<lambda>(docID, doc). C_insertRecovery tmpColID docID doc) (pg p))
              (pagesBelow (docCount div 10000 + 1))))"
proof -
  let ?tot = "docCount div 10000 + 1"
    let ?tmp = "tmpName colName (e_UnixNano env h)"
    from Scrub_None [OF run] obtain colID h1 h2 h3 where
      1: "Scrub_create env cl ?tmp (existingIndexesOf (e_schema env h) colID) h = (None, h1)"
      and 2: "Scrub_migrate env colName ?tmp h1 = (None, h2)"
      and 3: "forAllDBsDo env cl (Scrub_swap_fun env colName ?tmp) h2 = (None, h3)"
      and 4: "h' = h3 @ [C_reloadServer]"
      by blast
    from Scrub_migrate_None [where pg = pg, OF assms(1,2) 2] obtain tmpColID where
      m: "h2 = h1 @ [C_reloadServer, C_approxDocCount colName]
         @ concat (map (\<lambda>p. C_getDocPage colName p ?tot True
                       # map (\<lambda>(docID, doc). C_insertRecovery tmpColID docID doc) (pg p))
                 (pagesBelow ?tot))"
      by blast
    from 1 3 4 m have new: "new_calls h h' =
        concat (map (shardCalls (OpScrubCreate ?tmp (existingIndexesOf (e_schema env h) colID)))
                 [0..<nat (nProcs cl)])
        @ [C_reloadServer, C_approxDocCount colName]
        @ concat (map (\<lambda>p. C_getDocPage colName p ?tot True
                       # map (\<lambda>(docID, doc). C_insertRecovery tmpColID docID doc) (pg p))
                 (pagesBelow ?tot))
        @ concat (map (shardCalls (OpScrubSwap colName ?tmp)) [0..<nat (nProcs cl)])
        @ [C_reloadServer]"
      by (simp add: Scrub_create_None Scrub_swap_None)
    have f: "filter isFetch (new_calls h h') = map (\<lambda>p. C_getDocPage colName p ?tot True) (pagesBelow ?tot)"
      unfolding new
      by (simp add: filter_shardCalls [OF isFetch_client] del: map_map)
         (rule filter_pages_fetch, auto)
    have i: "filter isInsert (new_calls h h') =
        concat (map (\<lambda>p. map (\<lambda>(docID, doc). C_insertRecovery tmpColID docID doc) (pg p)) (pagesBelow ?tot))"
      unfolding new
      by (simp add: filter_shardCalls [OF isInsert_client] del: map_map)
         (rule filter_pages_other, auto)
    from f i show ?thesis by blast
qed

lemma Index_None_pages:
  assumes "\<And>g. e_approxDocCount env g colName = Inr docCount"
    and "\<And>g p. e_getDocPage env g colName p (docCount div 10000 + 1) True = Inr (pg p)"
    and n: "0 < nProcs cl" "nProcs cl < 2 ^ 63" and run: "Index env cl colName idxPath h = (None, h')"
  shows "filter isFetch (new_calls h h') =
            map (\<lambda>p. C_getDocPage colName p (docCount div 10000 + 1) True)
              (pagesBelow (docCount div 10000 + 1)) \<and>
          (\<exists>htID. filter isSend (new_calls h h') =
            concat (map (\<lambda>p. pagePuts env cl (e_Bint32 env htID) idxPath (pg p))
              (pagesBelow (docCount div 10000 + 1))))"
proof -
  let ?tot = "docCount div 10000 + 1"
    from Index_None [OF run] obtain h1 where
      e: "ext shard_call h h1" and 2: "Index_reindex env cl colName idxPath h1 = (None, h')"
      by blast
    from Index_reindex_None [where pg = pg, OF assms(1,2) n 2] obtain htID where
      m: "h' = h1 @ [C_reloadServer, C_approxDocCount colName]
         @ concat (map (\<lambda>p. C_getDocPage colName p ?tot True
                       # pagePuts env cl (e_Bint32 env htID) idxPath (pg p))
                 (pagesBelow ?tot))"
      by blast
    have f: "filter isFetch (new_calls h h') = map (\<lambda>p. C_getDocPage colName p ?tot True) (pagesBelow ?tot)"
      unfolding m
      by (simp add: filter_shard_ext [OF e isFetch_client] del: map_map)
         (rule filter_pages_fetch, auto simp: pagePuts_def putCmd_def)
    have s: "filter isSend (new_calls h h') =
        concat (map (\<lambda>p. pagePuts env cl (e_Bint32 env htID) idxPath (pg p)) (pagesBelow ?tot))"
      unfolding m
      by (simp add: filter_shard_ext [OF e isSend_client] del: map_map)
         (rule filter_pages_other, auto dest: pagePuts_isSend)
    from f s show ?thesis by blast
qed

lemma Scrub_pages_ok:
  assumes "\<And>g c. e_call env g c = None"
    and "\<And>g p. e_getDocPage env g colName p tot True = Inr (pg p)"
  shows "Scrub_pages env colName tmpColID tot pages h =
     (None, h @ concat (map (\<lambda>p. C_getDocPage colName p tot True
                               # map (\<lambda>(docID, doc). C_insertRecovery tmpColID docID doc) (pg p)) pages))"
  by (induction pages arbitrary: h)
     (simp_all add: assms(2) Scrub_docs_doCalls doCalls_ok [OF assms(1)])

lemma Scrub_succeeds:
  assumes "\<And>g. e_approxDocCount env g colName = Inr docCount"
    and "\<And>g p. e_getDocPage env g colName p (docCount div 10000 + 1) True = Inr (pg p)"
    and "\<And>g c. e_call env g c = None"
    and "map_of (colNameLookup (e_schema env h)) colName \<noteq> None"
    and "\<And>g. map_of (colNameLookup (e_schema env g)) (tmpName colName (e_UnixNano env h)) \<noteq> None"
  shows "fst (Scrub env cl colName h) = None"
proof -
  let ?tmp = "tmpName colName (e_UnixNano env h)"
  from assms(4) obtain colID where c: "map_of (colNameLookup (e_schema env h)) colName = Some colID"
    by auto
  have create: "Scrub_create env cl ?tmp idxs g = (None, g @ concat (map (shardCalls (OpScrubCreate ?tmp idxs))
      [0..<nat (nProcs cl)]))" for idxs g
    using runOp_doCalls [of env cl "OpScrubCreate ?tmp idxs" g]
    by (simp add: doCalls_ok [OF assms(3)])
  have swap: "forAllDBsDo env cl (Scrub_swap_fun env colName ?tmp) g =
      (None, g @ concat (map (shardCalls (OpScrubSwap colName ?tmp)) [0..<nat (nProcs cl)]))" for g
    using runOp_doCalls [of env cl "OpScrubSwap colName ?tmp" g]
    by (simp add: doCalls_ok [OF assms(3)])
  have migrate: "fst (Scrub_migrate env colName ?tmp g) = None" for g
  proof -
    from assms(5) [of "g @ [C_reloadServer]"] obtain tmpColID where
      "map_of (colNameLookup (e_schema env (g @ [C_reloadServer]))) ?tmp = Some tmpColID" by auto
    then show ?thesis
      by (simp add: Scrub_migrate_def assms(1,3) Let_def
            Scrub_pages_ok [where pg = pg, OF assms(3) assms(2)])
  qed
  show ?thesis
    unfolding Scrub_unfold [OF c] Scrub_swap_def
    using migrate [of "h @ concat (map (shardCalls (OpScrubCreate ?tmp (existingIndexesOf (e_schema env h) colID)))
      [0..<nat (nProcs cl)])"]
    by (auto simp: create swap assms(3) split: prod.splits option.splits)
qed

lemma Index_succeeds:
  assumes "\<And>g. e_approxDocCount env g colName = Inr docCount"
    and "\<And>g p. e_getDocPage env g colName p (docCount div 10000 + 1) True = Inr (pg p)"
    and "\<And>g c. e_call env g c = None" "\<And>g i. e_Use env g i colName"
    and "\<And>g. e_GetHTIDByPath env (e_schema env g) colName idxPath \<noteq> - 1"
    and "0 < nProcs cl" "nProcs cl < 2 ^ 63"
  shows "fst (Index env cl colName idxPath h) = None"
  by (simp add: Index_def reqMaintAccess_def Index_reindex_def Let_def
        Index_shards_ok [OF assms(3,4)] assms(1,3,5)
        Index_pages_ok [where pg = pg, OF assms(3) assms(2,6,7)])


text \<open>
  Claim C4.  With \<open>count\<close> the approximate number of documents, \<^verbatim>\<open>Index\<close> and \<^verbatim>\<open>Scrub\<close>
  go through the pages \<open>0, 1, ..., totalPages - 1\<close> in this order, where
  \<open>totalPages = count div 10000 + 1\<close> (no wrap-around in 64 bits); for 25000 documents
  these are the three pages 0, 1, 2.  On every run, the pages that the loop of
  \<^verbatim>\<open>Scrub\<close> and the loop of \<^verbatim>\<open>Index\<close> fetch are the first \<open>m\<close> pages, each once, in
  order, in the tolerant mode.  Over a collection whose count and pages do not change
  during the run: a run where no call fails returns no error; a run that returns no
  error has fetched every page exactly once, in order; \<^verbatim>\<open>Scrub\<close> has inserted every
  entry of every page exactly once, and \<^verbatim>\<open>Index\<close> has sent the put commands of every
  entry of every page exactly once.  Where the pages hold every document id of the
  collection exactly once (\<open>pages_partition\<close>), every document id is so touched exactly
  once.
\<close>

theorem paging_visits_every_page_once:
  assumes "\<And>g. e_approxDocCount env g colName = Inr docCount"
    and "\<And>g p. e_getDocPage env g colName p (docCount div 10000 + 1) True = Inr (pg p)"
  shows "pagesBelow (docCount div 10000 + 1) = map of_nat [0..<unat docCount div 10000 + 1]
     \<and> pagesBelow (25000 div 10000 + 1) = [0, 1, 2]
     \<and> (\<exists>tr m. snd (Scrub_pages env colName tmpColID t ps g) = g @ tr \<and> m \<le> length ps \<and>
          filter isFetch tr = map (\<lambda>p. C_getDocPage colName p t True) (take m ps))
     \<and> (\<exists>tr m. snd (Index_pages env cl colName idxPath htIDBytes t ps g) = g @ tr \<and> m \<le> length ps \<and>
          filter isFetch tr = map (\<lambda>p. C_getDocPage colName p t True) (take m ps))
     \<and> (Scrub env cl colName h = (None, h') \<longrightarrow>
          filter isFetch (new_calls h h') =
            map (\<lambda>p. C_getDocPage colName p (docCount div 10000 + 1) True)
              (pagesBelow (docCount div 10000 + 1)) \<and>
          (\<exists>tmpColID. filter isInsert (new_calls h h') =
            concat (map (\<lambda>p. map (\<lambda>(docID, doc). C_insertRecovery tmpColID docID doc) (pg p))
              (pagesBelow (docCount div 10000 + 1)))) \<and>
          (pages_partition pg (docCount div 10000 + 1) ids \<longrightarrow>
             distinct (insertedIDs (new_calls h h')) \<and> set (insertedIDs (new_calls h h')) = ids))
     \<and> (0 < nProcs cl \<and> nProcs cl < 2 ^ 63 \<and> Index env cl colName idxPath h = (None, h') \<longrightarrow>
          filter isFetch (new_calls h h') =
            map (\<lambda>p. C_getDocPage colName p (docCount div 10000 + 1) True)
              (pagesBelow (docCount div 10000 + 1)) \<and>
          (\<exists>htID. filter isSend (new_calls h h') =
              concat (map (\<lambda>p. pagePuts env cl (e_Bint32 env htID) idxPath (pg p))
                (pagesBelow (docCount div 10000 + 1))) \<and>
            (pages_partition pg (docCount div 10000 + 1) ids \<longrightarrow>
               (\<exists>entries. distinct (map fst entries) \<and> set (map fst entries) = ids \<and>
                  filter isSend (new_calls h h') = pagePuts env cl (e_Bint32 env htID) idxPath entries))))
     \<and> ((\<forall>g c. e_call env g c = None) \<and>
         map_of (colNameLookup (e_schema env h)) colName \<noteq> None \<and>
         (\<forall>g. map_of (colNameLookup (e_schema env g)) (tmpName colName (e_UnixNano env h)) \<noteq> None) \<longrightarrow>
          fst (Scrub env cl colName h) = None)
     \<and> (0 < nProcs cl \<and> nProcs cl < 2 ^ 63 \<and> (\<forall>g c. e_call env g c = None) \<and>
         (\<forall>g i. e_Use env g i colName) \<and>
         (\<forall>g. e_GetHTIDByPath env (e_schema env g) colName idxPath \<noteq> - 1) \<longrightarrow>
          fst (Index env cl colName idxPath h) = None)"
proof -
  let ?tot = "docCount div 10000 + 1"
  let ?pages = "pagesBelow ?tot"
  have c1: "pagesBelow (docCount div 10000 + 1) = map of_nat [0..<unat docCount div 10000 + 1]"
    by (rule pagesBelow_total)
  have c2: "pagesBelow (25000 div 10000 + 1) = [0, 1, 2]"
    by (rule pagesBelow_25000)
  have c3: "(\<exists>tr m. snd (Scrub_pages env colName tmpColID t ps g) = g @ tr \<and> m \<le> length ps \<and>
          filter isFetch tr = map (\<lambda>p. C_getDocPage colName p t True) (take m ps))"
    by (rule Scrub_pages_fetch_order)
  have c4: "(\<exists>tr m. snd (Index_pages env cl colName idxPath htIDBytes t ps g) = g @ tr \<and> m \<le> length ps \<and>
          filter isFetch tr = map (\<lambda>p. C_getDocPage colName p t True) (take m ps))"
    by (rule Index_pages_fetch_order)
  have c5: "(Scrub env cl colName h = (None, h') \<longrightarrow>
          filter isFetch (new_calls h h') =
            map (\<lambda>p. C_getDocPage colName p (docCount div 10000 + 1) True)
              (pagesBelow (docCount div 10000 + 1)) \<and>
          (\<exists>tmpColID. filter isInsert (new_calls h h') =
            concat (map (\<lambda>p. map (\<lambda>(docID, doc). C_insertRecovery tmpColID docID doc) (pg p))
              (pagesBelow (docCount div 10000 + 1)))) \<and>
          (pages_partition pg (docCount div 10000 + 1) ids \<longrightarrow>
             distinct (insertedIDs (new_calls h h')) \<and> set (insertedIDs (new_calls h h')) = ids))"
  proof
    assume run: "Scrub env cl colName h = (None, h')"
    from Scrub_None_pages [where pg = pg, OF assms run] obtain tmpColID where
      f: "filter isFetch (new_calls h h') = map (\<lambda>p. C_getDocPage colName p ?tot True) ?pages"
      and i: "filter isInsert (new_calls h h') =
        concat (map (\<lambda>p. map (\<lambda>(docID, doc). C_insertRecovery tmpColID docID doc) (pg p)) ?pages)"
      by blast
    have "concat (map (\<lambda>p. map (\<lambda>(docID, doc). C_insertRecovery tmpColID docID doc) (pg p)) ?pages)
        = map (\<lambda>(docID, doc). C_insertRecovery tmpColID docID doc) (concat (map pg ?pages))"
      by (simp add: map_concat comp_def)
    with i have "insertedIDs (filter isInsert (new_calls h h')) = map fst (concat (map pg ?pages))"
      by (simp only: insertedIDs_map)
    then have ids: "insertedIDs (new_calls h h') = map fst (concat (map pg ?pages))"
      by (simp only: insertedIDs_filter)
    have "pages_partition pg ?tot ids \<longrightarrow>
             distinct (insertedIDs (new_calls h h')) \<and> set (insertedIDs (new_calls h h')) = ids"
      unfolding ids pages_partition_def by blast
    with f i show "filter isFetch (new_calls h h') =
            map (\<lambda>p. C_getDocPage colName p ?tot True) ?pages \<and>
          (\<exists>tmpColID. filter isInsert (new_calls h h') =
            concat (map (\<lambda>p. map (\<lambda>(docID, doc). C_insertRecovery tmpColID docID doc) (pg p)) ?pages)) \<and>
          (pages_partition pg ?tot ids \<longrightarrow>
             distinct (insertedIDs (new_calls h h')) \<and> set (insertedIDs (new_calls h h')) = ids)"
      by blast
  qed
  have c6: "(0 < nProcs cl \<and> nProcs cl < 2 ^ 63 \<and> Index env cl colName idxPath h = (None, h') \<longrightarrow>
          filter isFetch (new_calls h h') =
            map (\<lambda>p. C_getDocPage colName p (docCount div 10000 + 1) True)
              (pagesBelow (docCount div 10000 + 1)) \<and>
          (\<exists>htID. filter isSend (new_calls h h') =
              concat (map (\<lambda>p. pagePuts env cl (e_Bint32 env htID) idxPath (pg p))
                (pagesBelow (docCount div 10000 + 1))) \<and>
            (pages_partition pg (docCount div 10000 + 1) ids \<longrightarrow>
               (\<exists>entries. distinct (map fst entries) \<and> set (map fst entries) = ids \<and>
                  filter isSend (new_calls h h') = pagePuts env cl (e_Bint32 env htID) idxPath entries))))"
  proof (rule impI, elim conjE)
    assume n: "0 < nProcs cl" "nProcs cl < 2 ^ 63" and run: "Index env cl colName idxPath h = (None, h')"
    from Index_None_pages [where pg = pg, OF assms n run] obtain htID where
      f: "filter isFetch (new_calls h h') = map (\<lambda>p. C_getDocPage colName p ?tot True) ?pages"
      and s: "filter isSend (new_calls h h') =
        concat (map (\<lambda>p. pagePuts env cl (e_Bint32 env htID) idxPath (pg p)) ?pages)"
      by blast
    have e: "concat (map (\<lambda>p. pagePuts env cl (e_Bint32 env htID) idxPath (pg p)) ?pages)
        = pagePuts env cl (e_Bint32 env htID) idxPath (concat (map pg ?pages))"
      by (simp add: pagePuts_concat comp_def)
    have "pages_partition pg ?tot ids \<longrightarrow>
               (\<exists>entries. distinct (map fst entries) \<and> set (map fst entries) = ids \<and>
                  filter isSend (new_calls h h') = pagePuts env cl (e_Bint32 env htID) idxPath entries)"
      unfolding s e pages_partition_def by blast
    with s have "\<exists>htID. filter isSend (new_calls h h') =
              concat (map (\<lambda>p. pagePuts env cl (e_Bint32 env htID) idxPath (pg p)) ?pages) \<and>
            (pages_partition pg ?tot ids \<longrightarrow>
               (\<exists>entries. distinct (map fst entries) \<and> set (map fst entries) = ids \<and>
                  filter isSend (new_calls h h') = pagePuts env cl (e_Bint32 env htID) idxPath entries))"
      by blast
    with f show "filter isFetch (new_calls h h') =
            map (\<lambda>p. C_getDocPage colName p ?tot True) ?pages \<and>
          (\<exists>htID. filter isSend (new_calls h h') =
              concat (map (\<lambda>p. pagePuts env cl (e_Bint32 env htID) idxPath (pg p)) ?pages) \<and>
            (pages_partition pg ?tot ids \<longrightarrow>
               (\<exists>entries. distinct (map fst entries) \<and> set (map fst entries) = ids \<and>
                  filter isSend (new_calls h h') = pagePuts env cl (e_Bint32 env htID) idxPath entries)))"
      by blast
  qed
  have c7: "((\<forall>g c. e_call env g c = None) \<and>
         map_of (colNameLookup (e_schema env h)) colName \<noteq> None \<and>
         (\<forall>g. map_of (colNameLookup (e_schema env g)) (tmpName colName (e_UnixNano env h)) \<noteq> None) \<longrightarrow>
          fst (Scrub env cl colName h) = None)"
    using Scrub_succeeds [where pg = pg, OF assms] by blast
  have c8: "(0 < nProcs cl \<and> nProcs cl < 2 ^ 63 \<and> (\<forall>g c. e_call env g c = None) \<and>
         (\<forall>g i. e_Use env g i colName) \<and>
         (\<forall>g. e_GetHTIDByPath env (e_schema env g) colName idxPath \<noteq> - 1) \<longrightarrow>
          fst (Index env cl colName idxPath h) = None)"
    using Index_succeeds [where pg = pg, OF assms] by blast
  show ?thesis
    by (rule conjI [OF c1 conjI [OF c2 conjI [OF c3 conjI [OF c4 conjI [OF c5 conjI [OF c6 conjI [OF c7 c8]]]]]]])
qed


lemma Index_env_25k:
  "Index env_25k (client_of 2) ''c'' [''a''] [] =
     (None,
      [DB_Open 0, Col_BPIndex 0 ''c'' [''a''], DB_Close 0,
       DB_Open 1, Col_BPIndex 1 ''c'' [''a''], DB_Close 1,
       C_reloadServer, C_approxDocCount ''c'',
       C_getDocPage ''c'' 0 3 True, C_sendCmd 0 False C_HT_PUT [[5], [0], [40]],
       C_getDocPage ''c'' 1 3 True, C_sendCmd 1 False C_HT_PUT [[5], [1], [41]],
       C_getDocPage ''c'' 2 3 True, C_sendCmd 0 False C_HT_PUT [[5], [2], [42]]])"
  by (simp add: Index_def reqMaintAccess_def Index_reindex_def pagesBelow_def
        env_25k_def env_idx_def schema_c_def env0_def client_of_def upt_rec Let_def)

theorem paging_visits_every_page_once_witness:
  "Scrub env_25k (client_of 1) ''c'' [] =
     (None,
      [DB_Open 0, DB_Create 0 ''scrub-c-7'', Col_BPIndex 0 ''scrub-c-7'' [''a''], DB_Close 0,
       C_reloadServer, C_approxDocCount ''c'',
       C_getDocPage ''c'' 0 3 True, C_insertRecovery 2 40 0,
       C_getDocPage ''c'' 1 3 True, C_insertRecovery 2 41 1,
       C_getDocPage ''c'' 2 3 True, C_insertRecovery 2 42 2,
       DB_Open 0, DB_Drop 0 ''c'', DB_Rename 0 ''scrub-c-7'' ''c'', DB_Close 0,
       C_reloadServer])
   \<and> filter isFetch (new_calls []
      ([DB_Open 0, DB_Create 0 ''scrub-c-7'', Col_BPIndex 0 ''scrub-c-7'' [''a''], DB_Close 0,
       C_reloadServer, C_approxDocCount ''c'',
       C_getDocPage ''c'' 0 3 True, C_insertRecovery 2 40 0,
       C_getDocPage ''c'' 1 3 True, C_insertRecovery 2 41 1,
       C_getDocPage ''c'' 2 3 True, C_insertRecovery 2 42 2,
       DB_Open 0, DB_Drop 0 ''c'', DB_Rename 0 ''scrub-c-7'' ''c'', DB_Close 0,
       C_reloadServer] :: nat call list)) =
     [C_getDocPage ''c'' 0 3 True, C_getDocPage ''c'' 1 3 True, C_getDocPage ''c'' 2 3 True]
   \<and> distinct (insertedIDs (new_calls []
      ([DB_Open 0, DB_Create 0 ''scrub-c-7'', Col_BPIndex 0 ''scrub-c-7'' [''a''], DB_Close 0,
       C_reloadServer, C_approxDocCount ''c'',
       C_getDocPage ''c'' 0 3 True, C_insertRecovery 2 40 0,
       C_getDocPage ''c'' 1 3 True, C_insertRecovery 2 41 1,
       C_getDocPage ''c'' 2 3 True, C_insertRecovery 2 42 2,
       DB_Open 0, DB_Drop 0 ''c'', DB_Rename 0 ''scrub-c-7'' ''c'', DB_Close 0,
       C_reloadServer] :: nat call list)))
   \<and> set (insertedIDs (new_calls []
      ([DB_Open 0, DB_Create 0 ''scrub-c-7'', Col_BPIndex 0 ''scrub-c-7'' [''a''], DB_Close 0,
       C_reloadServer, C_approxDocCount ''c'',
       C_getDocPage ''c'' 0 3 True, C_insertRecovery 2 40 0,
       C_getDocPage ''c'' 1 3 True, C_insertRecovery 2 41 1,
       C_getDocPage ''c'' 2 3 True, C_insertRecovery 2 42 2,
       DB_Open 0, DB_Drop 0 ''c'', DB_Rename 0 ''scrub-c-7'' ''c'', DB_Close 0,
       C_reloadServer] :: nat call list))) = {40, 41, 42}
   \<and> Index env_25k (client_of 2) ''c'' [''a''] [] =
     (None,
      [DB_Open 0, Col_BPIndex 0 ''c'' [''a''], DB_Close 0,
       DB_Open 1, Col_BPIndex 1 ''c'' [''a''], DB_Close 1,
       C_reloadServer, C_approxDocCount ''c'',
       C_getDocPage ''c'' 0 3 True, C_sendCmd 0 False C_HT_PUT [[5], [0], [40]],
       C_getDocPage ''c'' 1 3 True, C_sendCmd 1 False C_HT_PUT [[5], [1], [41]],
       C_getDocPage ''c'' 2 3 True, C_sendCmd 0 False C_HT_PUT [[5], [2], [42]]])
   \<and> filter isFetch (new_calls []
      ([DB_Open 0, Col_BPIndex 0 ''c'' [''a''], DB_Close 0,
       DB_Open 1, Col_BPIndex 1 ''c'' [''a''], DB_Close 1,
       C_reloadServer, C_approxDocCount ''c'',
       C_getDocPage ''c'' 0 3 True, C_sendCmd 0 False C_HT_PUT [[5], [0], [40]],
       C_getDocPage ''c'' 1 3 True, C_sendCmd 1 False C_HT_PUT [[5], [1], [41]],
       C_getDocPage ''c'' 2 3 True, C_sendCmd 0 False C_HT_PUT [[5], [2], [42]]] :: nat call list)) =
     [C_getDocPage ''c'' 0 3 True, C_getDocPage ''c'' 1 3 True, C_getDocPage ''c'' 2 3 True]
   \<and> fst (Index env_25k (client_of 2) ''c'' [''a''] []) = None
   \<and> fst (Scrub env_25k (client_of 1) ''c'' []) = None"
proof -
  have count: "\<And>g. e_approxDocCount env_25k g ''c'' = Inr 25000"
    by (simp add: env_25k_def env_idx_def env0_def)
  have pages: "\<And>g p. e_getDocPage env_25k g ''c'' p (25000 div 10000 + 1) True = Inr [(p + 40, unat p)]"
    by (simp add: env_25k_def env_idx_def env0_def)
  have part: "pages_partition (\<lambda>p :: uint64. [(p + 40, unat p)]) (25000 div 10000 + 1) {40, 41, 42}"
    by (auto simp: pages_partition_def pagesBelow_def upt_rec)
  have n: "0 < nProcs (client_of 2) \<and> nProcs (client_of 2) < 2 ^ 63 \<and>
      Index env_25k (client_of 2) ''c'' [''a''] [] =
     (None,
      [DB_Open 0, Col_BPIndex 0 ''c'' [''a''], DB_Close 0,
       DB_Open 1, Col_BPIndex 1 ''c'' [''a''], DB_Close 1,
       C_reloadServer, C_approxDocCount ''c'',
       C_getDocPage ''c'' 0 3 True, C_sendCmd 0 False C_HT_PUT [[5], [0], [40]],
       C_getDocPage ''c'' 1 3 True, C_sendCmd 1 False C_HT_PUT [[5], [1], [41]],
       C_getDocPage ''c'' 2 3 True, C_sendCmd 0 False C_HT_PUT [[5], [2], [42]]])"
    by (simp add: Index_env_25k) (simp add: client_of_def)
  have ok_i: "0 < nProcs (client_of 2) \<and> nProcs (client_of 2) < 2 ^ 63 \<and>
      (\<forall>g c. e_call env_25k g c = None) \<and> (\<forall>g i. e_Use env_25k g i ''c'') \<and>
      (\<forall>g. e_GetHTIDByPath env_25k (e_schema env_25k g) ''c'' [''a''] \<noteq> - 1)"
    by (simp add: env_25k_def env_idx_def env0_def client_of_def)
  have ok_s: "(\<forall>g c. e_call env_25k g c = None) \<and>
      map_of (colNameLookup (e_schema env_25k [])) ''c'' \<noteq> None \<and>
      (\<forall>g. map_of (colNameLookup (e_schema env_25k g)) (tmpName ''c'' (e_UnixNano env_25k [])) \<noteq> None)"
    by (simp add: env_25k_def env_idx_def env0_def schema_c_def tmpName_def intDec_def natDec.simps
          digit_def)
  note t = paging_visits_every_page_once [where env = env_25k and colName = "''c''" and docCount = 25000
      and pg = "\<lambda>p. [(p + 40, unat p)]", OF count pages]
  note t5 = t [THEN conjunct2, THEN conjunct2, THEN conjunct2, THEN conjunct2, THEN conjunct1,
      rule_format, OF Scrub_env_25k]
  note t6 = t [THEN conjunct2, THEN conjunct2, THEN conjunct2, THEN conjunct2, THEN conjunct2,
      THEN conjunct1, rule_format, OF n]
  note t7 = t [THEN conjunct2, THEN conjunct2, THEN conjunct2, THEN conjunct2, THEN conjunct2,
      THEN conjunct2, THEN conjunct1, rule_format, OF ok_s]
  note t8 = t [THEN conjunct2, THEN conjunct2, THEN conjunct2, THEN conjunct2, THEN conjunct2,
      THEN conjunct2, THEN conjunct2, rule_format, OF ok_i]
  from t5 [THEN conjunct1] have f: "filter isFetch (new_calls []
      ([DB_Open 0, DB_Create 0 ''scrub-c-7'', Col_BPIndex 0 ''scrub-c-7'' [''a''], DB_Close 0,
       C_reloadServer, C_approxDocCount ''c'',
       C_getDocPage ''c'' 0 3 True, C_insertRecovery 2 40 0,
       C_getDocPage ''c'' 1 3 True, C_insertRecovery 2 41 1,
       C_getDocPage ''c'' 2 3 True, C_insertRecovery 2 42 2,
       DB_Open 0, DB_Drop 0 ''c'', DB_Rename 0 ''scrub-c-7'' ''c'', DB_Close 0,
       C_reloadServer] :: nat call list)) =
     [C_getDocPage ''c'' 0 3 True, C_getDocPage ''c'' 1 3 True, C_getDocPage ''c'' 2 3 True]"
    by (simp add: pagesBelow_def upt_rec)
  from t5 [THEN conjunct2, THEN conjunct2, rule_format, OF part]
  have d: "distinct (insertedIDs (new_calls []
      ([DB_Open 0, DB_Create 0 ''scrub-c-7'', Col_BPIndex 0 ''scrub-c-7'' [''a''], DB_Close 0,
       C_reloadServer, C_approxDocCount ''c'',
       C_getDocPage ''c'' 0 3 True, C_insertRecovery 2 40 0,
       C_getDocPage ''c'' 1 3 True, C_insertRecovery 2 41 1,
       C_getDocPage ''c'' 2 3 True, C_insertRecovery 2 42 2,
       DB_Open 0, DB_Drop 0 ''c'', DB_Rename 0 ''scrub-c-7'' ''c'', DB_Close 0,
       C_reloadServer] :: nat call list)))"
    "set (insertedIDs (new_calls []
      ([DB_Open 0, DB_Create 0 ''scrub-c-7'', Col_BPIndex 0 ''scrub-c-7'' [''a''], DB_Close 0,
       C_reloadServer, C_approxDocCount ''c'',
       C_getDocPage ''c'' 0 3 True, C_insertRecovery 2 40 0,
       C_getDocPage ''c'' 1 3 True, C_insertRecovery 2 41 1,
       C_getDocPage ''c'' 2 3 True, C_insertRecovery 2 42 2,
       DB_Open 0, DB_Drop 0 ''c'', DB_Rename 0 ''scrub-c-7'' ''c'', DB_Close 0,
       C_reloadServer] :: nat call list))) = {40, 41, 42}"
    by blast+
  from t6 [THEN conjunct1] have fi: "filter isFetch (new_calls []
      ([DB_Open 0, Col_BPIndex 0 ''c'' [''a''], DB_Close 0,
       DB_Open 1, Col_BPIndex 1 ''c'' [''a''], DB_Close 1,
       C_reloadServer, C_approxDocCount ''c'',
       C_getDocPage ''c'' 0 3 True, C_sendCmd 0 False C_HT_PUT [[5], [0], [40]],
       C_getDocPage ''c'' 1 3 True, C_sendCmd 1 False C_HT_PUT [[5], [1], [41]],
       C_getDocPage ''c'' 2 3 True, C_sendCmd 0 False C_HT_PUT [[5], [2], [42]]] :: nat call list)) =
     [C_getDocPage ''c'' 0 3 True, C_getDocPage ''c'' 1 3 True, C_getDocPage ''c'' 2 3 True]"
    by (simp add: pagesBelow_def upt_rec)
  from Scrub_env_25k f d Index_env_25k fi t8 t7 show ?thesis
    by blast
qed

subsection \<open>The read accessors\<close>

lemma pingAndLog_eq:
  "pingAndLog env cl format h =
     (case e_call env h C_Ping of
        None \<Rightarrow> h @ [C_Ping]
      | Some e \<Rightarrow> h @ [C_Ping, Log_Noticef format (cid cl) e])"
  by (simp add: pingAndLog_def split: option.splits)

lemma schema_wf_joint:
  assumes "schema_wf s" "map_of (indexPathsJoint s) colID = Some joint"
  shows "distinct (map fst joint)"
proof -
  from assms(2) have "(colID, joint) \<in> set (indexPathsJoint s)"
    by (rule map_of_SomeD)
  with assms(1) show ?thesis
    by (auto simp: schema_wf_def list_all_iff)
qed


lemma splitFrom_not_Nil: "splitFrom sep cur s \<noteq> []"
  by (induction sep cur s rule: splitFrom.induct) (subst splitFrom.simps, simp)

lemma strings_Join_Cons: "xs \<noteq> [] \<Longrightarrow> strings_Join (a # xs) sep = a @ sep @ strings_Join xs sep"
  by (cases xs) auto

lemma splitFrom_join: "sep \<noteq> [] \<Longrightarrow> strings_Join (splitFrom sep cur s) sep = cur @ s"
proof (induction sep cur s rule: splitFrom.induct)
  case (1 sep cur s)
  show ?case
  proof (cases "s = []")
    case True
    then show ?thesis by (subst splitFrom.simps) simp
  next
    case False
    show ?thesis
    proof (cases "prefix sep s")
      case True
      then have "sep @ drop (length sep) s = s"
        by (auto simp: prefix_def)
      with 1 False True show ?thesis
        by (subst splitFrom.simps) (simp add: strings_Join_Cons splitFrom_not_Nil)
    next
      case no: False
      from False have "[hd s] @ tl s = s" by simp
      with 1 False no show ?thesis
        by (subst splitFrom.simps) simp
    qed
  qed
qed

lemma splitFrom_no_sep:
  "sep \<noteq> [] \<Longrightarrow> (\<forall>j<length cur. \<not> prefix sep (drop j (cur @ s))) \<Longrightarrow>
   \<forall>seg\<in>set (splitFrom sep cur s). \<forall>j. \<not> prefix sep (drop j seg)"
proof (induction sep cur s rule: splitFrom.induct)
  case (1 sep cur s)
  have cur: "\<not> prefix sep (drop j cur)" for j
  proof (cases "j < length cur")
    case True
    with "1.prems"(2) have "\<not> prefix sep (drop j cur @ s)" by simp
    then show ?thesis by (auto intro: prefix_prefix)
  next
    case False
    with "1.prems"(1) show ?thesis by simp
  qed
  show ?case
  proof (cases "s = []")
    case True
    with cur show ?thesis by (subst splitFrom.simps) simp
  next
    case False
    show ?thesis
    proof (cases "prefix sep s")
      case True
      with 1 False cur show ?thesis
        by (subst splitFrom.simps) simp
    next
      case no: False
      have "\<forall>j<length (cur @ [hd s]). \<not> prefix sep (drop j ((cur @ [hd s]) @ tl s))"
      proof (intro allI impI)
        fix j assume "j < length (cur @ [hd s])"
        then consider "j < length cur" | "j = length cur" by force
        then show "\<not> prefix sep (drop j ((cur @ [hd s]) @ tl s))"
        proof cases
          case 1
          with "1.prems"(2) False show ?thesis by simp
        next
          case 2
          with no False show ?thesis by simp
        qed
      qed
      with "1.IH"(2) "1.prems"(1) False no show ?thesis
        by (subst splitFrom.simps) simp
    qed
  qed
qed

text \<open>
  Claim C8.  \<^verbatim>\<open>AllCols\<close> and \<^verbatim>\<open>AllIndexesJointPaths\<close> first ping; a ping that fails is
  logged and changes nothing else: the accessor answers from the schema cache all the
  same.  \<^verbatim>\<open>AllCols\<close> returns the collection names of the cache, sorted and without
  duplicates.  \<^verbatim>\<open>AllIndexesJointPaths\<close> fails only for a collection that the cache does
  not know, and otherwise returns the joint paths of the collection, sorted and without
  duplicates.  \<^verbatim>\<open>AllIndexes\<close> returns the same paths in the same order, each split
  into its segments by \<^verbatim>\<open>strings.Split\<close>: the segments of a joint path, joined with the
  separator, give the joint path back, and the separator occurs in no segment.
\<close>

theorem read_accessors_sorted:
  assumes "\<And>g. schema_wf (e_schema env g)"
  shows "snd (AllCols env cl h) =
           (case e_call env h C_Ping of
              None \<Rightarrow> h @ [C_Ping]
            | Some e \<Rightarrow> h @ [C_Ping,
                Log_Noticef ''Client %d: failed to ping before returning collection names - %v'' (cid cl) e])
       \<and> sorted (fst (AllCols env cl h)) \<and> distinct (fst (AllCols env cl h))
       \<and> set (fst (AllCols env cl h)) = fst ` set (colNameLookup (e_schema env (snd (AllCols env cl h))))
       \<and> snd (AllIndexesJointPaths env cl colName h) =
           (case e_call env h C_Ping of
              None \<Rightarrow> h @ [C_Ping]
            | Some e \<Rightarrow> h @ [C_Ping,
                Log_Noticef ''Client %d: failed to ping before returning index paths - %v'' (cid cl) e])
       \<and> (case map_of (colNameLookup (e_schema env (snd (AllIndexesJointPaths env cl colName h)))) colName of
            None \<Rightarrow> fst (AllIndexesJointPaths env cl colName h)
                      = Inl (Err (''Collection '' @ colName @ '' does not exist''))
          | Some colID \<Rightarrow>
              (\<exists>paths. fst (AllIndexesJointPaths env cl colName h) = Inr paths \<and>
                 sorted paths \<and> distinct paths \<and>
                 set paths =
                   (case map_of (indexPathsJoint (e_schema env (snd (AllIndexesJointPaths env cl colName h)))) colID of
                      None \<Rightarrow> {}
                    | Some joint \<Rightarrow> fst ` set joint)))
       \<and> AllIndexes env cl colName h =
           (case AllIndexesJointPaths env cl colName h of
              (Inl e, h1) \<Rightarrow> (Inl e, h1)
            | (Inr paths, h1) \<Rightarrow>
                (Inr (map (\<lambda>p. strings_Split env p (e_INDEX_PATH_SEP env)) paths), h1))
       \<and> (e_INDEX_PATH_SEP env \<noteq> [] \<longrightarrow>
            (\<forall>p. strings_Join (strings_Split env p (e_INDEX_PATH_SEP env)) (e_INDEX_PATH_SEP env) = p \<and>
                 (\<forall>seg\<in>set (strings_Split env p (e_INDEX_PATH_SEP env)).
                    \<forall>j. \<not> prefix (e_INDEX_PATH_SEP env) (drop j seg))))"
proof -
  let ?h1 = "pingAndLog env cl ''Client %d: failed to ping before returning collection names - %v'' h"
  let ?h2 = "pingAndLog env cl ''Client %d: failed to ping before returning index paths - %v'' h"
  have c: "AllCols env cl h = (sort (map fst (colNameLookup (e_schema env ?h1))), ?h1)"
    by (simp add: AllCols_def Let_def)
  from assms [of ?h1] have d: "distinct (map fst (colNameLookup (e_schema env ?h1)))"
    by (simp add: schema_wf_def)
  have 1: "snd (AllCols env cl h) =
           (case e_call env h C_Ping of
              None \<Rightarrow> h @ [C_Ping]
            | Some e \<Rightarrow> h @ [C_Ping,
                Log_Noticef ''Client %d: failed to ping before returning collection names - %v'' (cid cl) e])"
    unfolding c by (simp add: pingAndLog_eq)
  have 2: "sorted (fst (AllCols env cl h))" "distinct (fst (AllCols env cl h))"
    "set (fst (AllCols env cl h)) = fst ` set (colNameLookup (e_schema env (snd (AllCols env cl h))))"
    unfolding c using d by simp_all
  have j: "snd (AllIndexesJointPaths env cl colName h) = ?h2"
    by (simp add: AllIndexesJointPaths_def Let_def split: option.splits)
  have 3: "snd (AllIndexesJointPaths env cl colName h) =
           (case e_call env h C_Ping of
              None \<Rightarrow> h @ [C_Ping]
            | Some e \<Rightarrow> h @ [C_Ping,
                Log_Noticef ''Client %d: failed to ping before returning index paths - %v'' (cid cl) e])"
    unfolding j by (simp add: pingAndLog_eq)
  have 4: "(case map_of (colNameLookup (e_schema env (snd (AllIndexesJointPaths env cl colName h)))) colName of
            None \<Rightarrow> fst (AllIndexesJointPaths env cl colName h)
                      = Inl (Err (''Collection '' @ colName @ '' does not exist''))
          | Some colID \<Rightarrow>
              (\<exists>paths. fst (AllIndexesJointPaths env cl colName h) = Inr paths \<and>
                 sorted paths \<and> distinct paths \<and>
                 set paths =
                   (case map_of (indexPathsJoint (e_schema env (snd (AllIndexesJointPaths env cl colName h)))) colID of
                      None \<Rightarrow> {}
                    | Some joint \<Rightarrow> fst ` set joint)))"
    unfolding j
    using schema_wf_joint [OF assms [of ?h2]]
    by (auto simp: AllIndexesJointPaths_def Let_def split: option.splits)
  have 5: "AllIndexes env cl colName h =
           (case AllIndexesJointPaths env cl colName h of
              (Inl e, h1) \<Rightarrow> (Inl e, h1)
            | (Inr paths, h1) \<Rightarrow>
                (Inr (map (\<lambda>p. strings_Split env p (e_INDEX_PATH_SEP env)) paths), h1))"
    by (simp add: AllIndexes_def)
  have 6: "e_INDEX_PATH_SEP env \<noteq> [] \<longrightarrow>
            (\<forall>p. strings_Join (strings_Split env p (e_INDEX_PATH_SEP env)) (e_INDEX_PATH_SEP env) = p \<and>
                 (\<forall>seg\<in>set (strings_Split env p (e_INDEX_PATH_SEP env)).
                    \<forall>j. \<not> prefix (e_INDEX_PATH_SEP env) (drop j seg)))"
    using splitFrom_join [of "e_INDEX_PATH_SEP env" "[]"] splitFrom_no_sep [of "e_INDEX_PATH_SEP env" "[]"]
    by (simp add: strings_Split_def)
  show ?thesis
    by (rule conjI [OF 1 conjI [OF 2(1) conjI [OF 2(2) conjI [OF 2(3) conjI [OF 3 conjI [OF 4 conjI [OF 5 6]]]]]]])
qed

theorem read_accessors_sorted_witness:
  "AllCols env_ping_down (client_of 2) [] =
     ([''c'', ''scrub-c-7''],
      [C_Ping, Log_Noticef ''Client %d: failed to ping before returning collection names - %v'' 1
                 (Err ''timeout'')])
   \<and> sorted (fst (AllCols env_ping_down (client_of 2) []))
   \<and> distinct (fst (AllCols env_ping_down (client_of 2) []))
   \<and> AllIndexesJointPaths env_ping_down (client_of 2) ''c'' [] =
     (Inr [''a'', ''b!x''],
      [C_Ping, Log_Noticef ''Client %d: failed to ping before returning index paths - %v'' 1
                 (Err ''timeout'')])
   \<and> AllIndexes env_ping_down (client_of 2) ''c'' [] =
     (Inr [[''a''], [''b'', ''x'']],
      [C_Ping, Log_Noticef ''Client %d: failed to ping before returning index paths - %v'' 1
                 (Err ''timeout'')])
   \<and> strings_Join (strings_Split env_ping_down ''b!x'' (e_INDEX_PATH_SEP env_ping_down))
         (e_INDEX_PATH_SEP env_ping_down) = ''b!x''"
proof -
  have wf: "\<And>g. schema_wf (e_schema env_ping_down g)"
    by (simp add: schema_wf_def env_ping_down_def schema_c_def env0_def)
  note t = read_accessors_sorted [where env = env_ping_down and cl = "client_of 2" and h = "[]"
      and colName = "''c''", OF wf]
  have a: "AllCols env_ping_down (client_of 2) [] =
     ([''c'', ''scrub-c-7''],
      [C_Ping, Log_Noticef ''Client %d: failed to ping before returning collection names - %v'' 1
                 (Err ''timeout'')])"
    by (simp add: AllCols_def pingAndLog_def env_ping_down_def schema_c_def env0_def client_of_def)
  have b: "AllIndexesJointPaths env_ping_down (client_of 2) ''c'' [] =
     (Inr [''a'', ''b!x''],
      [C_Ping, Log_Noticef ''Client %d: failed to ping before returning index paths - %v'' 1
                 (Err ''timeout'')])"
    by (simp add: AllIndexesJointPaths_def pingAndLog_def env_ping_down_def schema_c_def env0_def
          client_of_def)
  have c: "AllIndexes env_ping_down (client_of 2) ''c'' [] =
     (Inr [[''a''], [''b'', ''x'']],
      [C_Ping, Log_Noticef ''Client %d: failed to ping before returning index paths - %v'' 1
                 (Err ''timeout'')])"
    using t [THEN conjunct2, THEN conjunct2, THEN conjunct2, THEN conjunct2,
      THEN conjunct2, THEN conjunct2, THEN conjunct1]
    by (simp add: b) (simp add: strings_Split_def splitFrom.simps env_ping_down_def env0_def)
  have s: "e_INDEX_PATH_SEP env_ping_down \<noteq> []"
    by (simp add: env_ping_down_def env0_def)
  from t [THEN conjunct2, THEN conjunct1]
       t [THEN conjunct2, THEN conjunct2, THEN conjunct1]
       t [THEN conjunct2, THEN conjunct2, THEN conjunct2, THEN conjunct2,
          THEN conjunct2, THEN conjunct2, THEN conjunct2, rule_format, OF s, THEN conjunct1, of "''b!x''"]
       a b c
  show ?thesis by blast
qed
end
